theory Spec2Isabelle
  imports Main
begin

section \<open>Matrices over the integers, reduced modulo 3\<close>

text \<open>
  The Python code works on 3x3 numpy arrays of integers and on their flattened 9-tuples
  (\<open>matrix_to_tuple\<close>), which are the members of its sets. Both are modelled by one value:
  three rows of three integers. Entries are Python integers (\<open>int\<close>); every product is
  reduced with \<open>% 3\<close>, whose result is in 0..2 as HOL's \<open>mod\<close> on \<open>int\<close> is.
\<close>

type_synonym vec = "int \<times> int \<times> int"

type_synonym matrix = "vec \<times> vec \<times> vec"

definition identity :: matrix where
  "identity = ((1, 0, 0), (0, 1, 0), (0, 0, 1))"

definition dot :: "vec \<Rightarrow> vec \<Rightarrow> int" where
  "dot u v = (case u of (a, b, c) \<Rightarrow> case v of (d, e, f) \<Rightarrow> a * d + b * e + c * f)"

fun vsum :: "vec \<Rightarrow> int" where
  "vsum (x, y, z) = x + y + z"

fun vec_mod3 :: "vec \<Rightarrow> vec" where
  "vec_mod3 (x, y, z) = (x mod 3, y mod 3, z mod 3)"

fun rows_of :: "matrix \<Rightarrow> vec list" where
  "rows_of (r0, r1, r2) = [r0, r1, r2]"

fun cols_of :: "matrix \<Rightarrow> vec list" where
  "cols_of ((a, b, c), (d, e, f), (g, h, i)) = [(a, d, g), (b, e, h), (c, f, i)]"

text \<open>\<open>M @ v\<close> for a matrix and a vector.\<close>

fun mat_vec :: "matrix \<Rightarrow> vec \<Rightarrow> vec" where
  "mat_vec (r0, r1, r2) v = (dot r0 v, dot r1 v, dot r2 v)"

fun mat_mod3 :: "matrix \<Rightarrow> matrix" where
  "mat_mod3 (r0, r1, r2) = (vec_mod3 r0, vec_mod3 r1, vec_mod3 r2)"

text \<open>\<open>A @ B\<close>: row i of the product holds the dot products of row i of A with the columns of B.\<close>

fun mat_mul :: "matrix \<Rightarrow> matrix \<Rightarrow> matrix" where
  "mat_mul (r0, r1, r2) ((a, b, c), (d, e, f), (g, h, i)) =
     ((dot r0 (a, d, g), dot r0 (b, e, h), dot r0 (c, f, i)),
      (dot r1 (a, d, g), dot r1 (b, e, h), dot r1 (c, f, i)),
      (dot r2 (a, d, g), dot r2 (b, e, h), dot r2 (c, f, i)))"

text \<open>\<open>matrix_mult_mod3\<close> / \<open>matrix_multiply_mod3\<close>: \<open>(A @ B) % 3\<close>.\<close>

definition matrix_mult_mod3 :: "matrix \<Rightarrow> matrix \<Rightarrow> matrix" where
  "matrix_mult_mod3 A B = mat_mod3 (mat_mul A B)"

text \<open>The invariant of a matrix over F3: every entry is 0, 1 or 2.\<close>

definition field3 :: "int list" where
  "field3 = [0, 1, 2]"

fun vec_F3 :: "vec \<Rightarrow> bool" where
  "vec_F3 (x, y, z) = (x \<in> set field3 \<and> y \<in> set field3 \<and> z \<in> set field3)"

definition in_F3 :: "matrix \<Rightarrow> bool" where
  "in_F3 M = list_all vec_F3 (rows_of M)"

text \<open>
  The determinant. The source calls \<open>np.linalg.det\<close>, which works in floating point, and
  rounds the result to the nearest integer; the model is the integer that the rounding is
  meant to recover, the determinant by cofactor expansion along the first row.
\<close>

fun det :: "matrix \<Rightarrow> int" where
  "det ((a, b, c), (d, e, f), (g, h, i)) =
     a * (e * i - f * h) - b * (d * i - f * g) + c * (d * h - e * g)"

section \<open>Enumeration of GL(3, F3) and the constraint predicates\<close>

text \<open>
  \<open>itertools.product([0,1,2], repeat=9)\<close> reshaped to 3x3: the nine entries run in
  lexicographic order, the last entry fastest.
\<close>

definition raw_matrices :: "matrix list" where
  "raw_matrices = [((a, b, c), (d, e, f), (g, h, i)).
      a \<leftarrow> field3, b \<leftarrow> field3, c \<leftarrow> field3, d \<leftarrow> field3, e \<leftarrow> field3,
      f \<leftarrow> field3, g \<leftarrow> field3, h \<leftarrow> field3, i \<leftarrow> field3]"

text \<open>The test of \<open>generate_gl3_f3\<close>: \<open>int(np.round(np.linalg.det(M))) % 3 != 0\<close>.\<close>

definition invertible :: "matrix \<Rightarrow> bool" where
  "invertible M = (det M mod 3 \<noteq> 0)"

definition generate_gl3_f3 :: "matrix list" where
  "generate_gl3_f3 = filter invertible raw_matrices"

text \<open>\<open>check_conservation\<close>: every row sums to 1 modulo 3.\<close>

definition check_conservation :: "matrix \<Rightarrow> bool" where
  "check_conservation M = list_all (\<lambda>r. vsum r mod 3 = 1) (rows_of M)"

text \<open>\<open>check_row_and_col\<close>: every row and every column sums to 1 modulo 3.\<close>

definition check_row_and_col :: "matrix \<Rightarrow> bool" where
  "check_row_and_col M =
     (list_all (\<lambda>r. vsum r mod 3 = 1) (rows_of M) \<and>
      list_all (\<lambda>c. vsum c mod 3 = 1) (cols_of M))"

text \<open>
  \<open>check_normalizes_h\<close>: the test \<open>sum((M @ v) % 3) % 3 != 0\<close> fails the matrix, first on
  the two basis vectors of the kernel of [1,1,1], then on every combination
  \<open>(a * b1 + b * b2) % 3\<close> except \<open>a = b = 0\<close>.
\<close>

fun scale :: "int \<Rightarrow> vec \<Rightarrow> vec" where
  "scale k (x, y, z) = (k * x, k * y, k * z)"

fun vadd :: "vec \<Rightarrow> vec \<Rightarrow> vec" where
  "vadd (x, y, z) (x', y', z') = (x + x', y + y', z + z')"

definition H_basis :: "vec list" where
  "H_basis = [(1, 2, 0), (0, 1, 2)]"

definition leaves_H :: "matrix \<Rightarrow> vec \<Rightarrow> bool" where
  "leaves_H M v = (vsum (vec_mod3 (mat_vec M v)) mod 3 = 0)"

definition combination :: "int \<Rightarrow> int \<Rightarrow> vec" where
  "combination a b = vec_mod3 (vadd (scale a (H_basis ! 0)) (scale b (H_basis ! 1)))"

definition check_combinations :: "matrix \<Rightarrow> bool" where
  "check_combinations M =
     list_all (\<lambda>(a, b). if a = 0 \<and> b = 0 then True else leaves_H M (combination a b))
       [(a, b). a \<leftarrow> [0, 1, 2], b \<leftarrow> [0, 1, 2]]"

definition check_normalizes_h :: "matrix \<Rightarrow> bool" where
  "check_normalizes_h M = (list_all (leaves_H M) H_basis \<and> check_combinations M)"

text \<open>The 54 doubly stochastic matrices of GL(3, F3), in the order of the enumeration.\<close>

definition ops_54 :: "matrix list" where
  "ops_54 = filter check_row_and_col generate_gl3_f3"

section \<open>Element orders\<close>

text \<open>
  \<open>compute_order\<close> (test suite) and \<open>compute_matrix_order\<close> (investigator): \<open>current\<close>
  starts at \<open>M\<close>; for \<open>n\<close> in \<open>range(1, max_order + 1)\<close> the loop returns \<open>n\<close> when
  \<open>current % 3\<close> is the identity and otherwise multiplies \<open>current\<close> by \<open>M\<close> modulo 3. When
  the range is exhausted the first returns \<open>None\<close> and the second \<open>-1\<close>.
\<close>

fun order_loop :: "matrix \<Rightarrow> matrix \<Rightarrow> nat list \<Rightarrow> nat option" where
  "order_loop M current [] = None"
| "order_loop M current (n # ns) =
     (if mat_mod3 current = identity then Some n
      else order_loop M (matrix_mult_mod3 current M) ns)"

definition compute_order :: "matrix \<Rightarrow> nat option" where
  "compute_order M = order_loop M M [1..<21]"

definition compute_matrix_order :: "matrix \<Rightarrow> nat \<Rightarrow> int" where
  "compute_matrix_order M max_order =
     (case order_loop M M [1..<max_order + 1] of Some n \<Rightarrow> int n | None \<Rightarrow> - 1)"

section \<open>The closure computation\<close>

text \<open>
  \<open>generate_group\<close> keeps \<open>group\<close> as a Python set of tuples, \<open>to_process\<close> as a list used
  as a queue and \<open>processed\<close> as a set. The model keeps the members of \<open>group\<close> in a list
  without repetitions, in the order of insertion, so that \<open>len(group)\<close> is its length.
  \<open>list(group)\<close> iterates the set in an order that Python does not specify; it is the
  parameter \<open>ord\<close>, a function of the insertion history, of which only
  \<open>valid_order\<close> is assumed: it lists exactly the members.
\<close>

definition valid_order :: "(matrix list \<Rightarrow> matrix list) \<Rightarrow> bool" where
  "valid_order ord = (\<forall>G. set (ord G) = set G)"

definition set_add :: "matrix \<Rightarrow> matrix list \<Rightarrow> matrix list" where
  "set_add x G = (if x \<in> set G then G else G @ [x])"

text \<open>
  The loop \<open>for prod in [prod1, prod2]\<close>: a product not yet in the group is added; when
  the group has then reached \<open>max_size\<close> the loop is left with \<open>break\<close>, before the product
  is queued; otherwise the product is appended to \<open>to_process\<close>. The \<open>break\<close> leaves this
  inner loop only.
\<close>

fun try_products :: "int \<Rightarrow> matrix list \<Rightarrow> matrix list \<times> matrix list \<Rightarrow> matrix list \<times> matrix list" where
  "try_products max_size [] (G, Q) = (G, Q)"
| "try_products max_size (p # ps) (G, Q) =
     (if p \<notin> set G then
        (if int (length (G @ [p])) \<ge> max_size then (G @ [p], Q)
         else try_products max_size ps (G @ [p], Q @ [p]))
      else try_products max_size ps (G, Q))"

text \<open>
  The loop \<open>for elem_tuple in list(group)\<close> over the snapshot taken before the loop:
  both products of \<open>current\<close> with each element are tried in turn.
\<close>

definition expand :: "int \<Rightarrow> matrix \<Rightarrow> matrix list \<Rightarrow> matrix list \<times> matrix list \<Rightarrow> matrix list \<times> matrix list" where
  "expand max_size current snapshot GQ =
     fold (\<lambda>elem. try_products max_size
             [matrix_mult_mod3 current elem, matrix_mult_mod3 elem current]) snapshot GQ"

subsection \<open>Termination of the closure loop\<close>

text \<open>
  Termination of the \<open>while\<close> loop: every product is a matrix over F3, so each insertion
  uses up one of the finitely many matrices over F3 not yet in the group, and at most
  one queue entry is added per insertion.
\<close>

definition unseen :: "matrix list \<Rightarrow> nat" where
  "unseen G = card ({M. in_F3 M} - set G)"

lemma mod3_cases: "(x::int) mod 3 = 0 \<or> x mod 3 = 1 \<or> x mod 3 = 2"
  by presburger

lemma mod3_in_field3: "(x::int) mod 3 \<in> set field3"
  using mod3_cases [of x] by (auto simp: field3_def)

lemma in_F3_mat_mod3: "in_F3 (mat_mod3 M)"
proof -
  obtain a b c d e f g h i where M: "M = ((a, b, c), (d, e, f), (g, h, i))"
    by (metis prod_cases3)
  show ?thesis unfolding M by (simp add: in_F3_def mod3_in_field3)
qed

lemma in_F3_mult: "in_F3 (matrix_mult_mod3 A B)"
  unfolding matrix_mult_mod3_def by (rule in_F3_mat_mod3)

lemma finite_in_F3: "finite {M. in_F3 M}"
proof -
  let ?F = "set field3"
  have "{M. in_F3 M} \<subseteq> (?F \<times> ?F \<times> ?F) \<times> (?F \<times> ?F \<times> ?F) \<times> (?F \<times> ?F \<times> ?F)"
    by (auto simp: in_F3_def)
  then show ?thesis by (rule finite_subset) simp
qed

lemma unseen_append:
  assumes "in_F3 p" and "p \<notin> set G"
  shows "Suc (unseen (G @ [p])) = unseen G"
proof -
  have "p \<in> {M. in_F3 M} - set G" using assms by simp
  moreover have "{M. in_F3 M} - set (G @ [p]) = ({M. in_F3 M} - set G) - {p}" by auto
  moreover have "finite ({M. in_F3 M} - set G)" using finite_in_F3 by simp
  ultimately show ?thesis
    unfolding unseen_def by (metis card_Suc_Diff1)
qed

lemma try_products_measure:
  assumes "\<forall>p \<in> set ps. in_F3 p" and "try_products max_size ps (G, Q) = (G', Q')"
  shows "2 * unseen G' + length Q' \<le> 2 * unseen G + length Q"
  using assms
proof (induction ps arbitrary: G Q)
  case Nil
  then show ?case by simp
next
  case (Cons p ps)
  show ?case
  proof (cases "p \<in> set G")
    case True
    with Cons show ?thesis by simp
  next
    case False
    with Cons.prems have u: "Suc (unseen (G @ [p])) = unseen G"
      by (intro unseen_append) simp_all
    show ?thesis
    proof (cases "int (length (G @ [p])) \<ge> max_size")
      case True
      with False Cons.prems u show ?thesis by auto
    next
      case stay: False
      with False Cons.prems have "try_products max_size ps (G @ [p], Q @ [p]) = (G', Q')"
        by simp
      with Cons.IH [of "G @ [p]" "Q @ [p]"] Cons.prems(1)
      have "2 * unseen G' + length Q' \<le> 2 * unseen (G @ [p]) + length (Q @ [p])" by simp
      with u show ?thesis by simp
    qed
  qed
qed

lemma expand_measure:
  assumes "expand max_size current snapshot (G, Q) = (G', Q')"
  shows "2 * unseen G' + length Q' \<le> 2 * unseen G + length Q"
  using assms
proof (induction snapshot arbitrary: G Q)
  case Nil
  then show ?case by (simp add: expand_def)
next
  case (Cons e es)
  obtain G1 Q1 where step: "try_products max_size
      [matrix_mult_mod3 current e, matrix_mult_mod3 e current] (G, Q) = (G1, Q1)"
    by (cases "try_products max_size [matrix_mult_mod3 current e, matrix_mult_mod3 e current] (G, Q)")
  then have "2 * unseen G1 + length Q1 \<le> 2 * unseen G + length Q"
    by (intro try_products_measure [OF _ step]) (simp add: in_F3_mult)
  moreover from Cons.prems step have "expand max_size current es (G1, Q1) = (G', Q')"
    by (simp add: expand_def)
  then have "2 * unseen G' + length Q' \<le> 2 * unseen G1 + length Q1"
    by (rule Cons.IH)
  ultimately show ?case by simp
qed

text \<open>
  The loop \<open>while to_process and len(group) < max_size\<close>. The state is the group, the
  queue and the processed elements; the state at exit is returned.
\<close>

function closure_loop ::
  "(matrix list \<Rightarrow> matrix list) \<Rightarrow> int \<Rightarrow> matrix list \<times> matrix list \<times> matrix list
     \<Rightarrow> matrix list \<times> matrix list \<times> matrix list" where
  "closure_loop ord max_size (G, Q, P) =
     (case Q of
        [] \<Rightarrow> (G, Q, P)
      | current # rest \<Rightarrow>
          if int (length G) < max_size then
            (if current \<in> set P then closure_loop ord max_size (G, rest, P)
             else (case expand max_size current (ord G) (G, rest) of
                     (G', Q') \<Rightarrow> closure_loop ord max_size (G', Q', current # P)))
          else (G, Q, P))"
  by pat_completeness auto
termination
  by (relation "measure (\<lambda>(ord, max_size, G, Q, P). 2 * unseen G + length Q)")
     (auto dest!: expand_measure [OF sym])

text \<open>The group before the loop: the identity, then the generators, added to an empty set.\<close>

definition initial_group :: "matrix list \<Rightarrow> matrix list" where
  "initial_group generators = fold set_add (identity # generators) []"

definition generate_group :: "(matrix list \<Rightarrow> matrix list) \<Rightarrow> matrix list \<Rightarrow> int \<Rightarrow> matrix list" where
  "generate_group ord generators max_size =
     fst (closure_loop ord max_size (initial_group generators, generators, []))"

text \<open>What is left of \<open>to_process\<close> when \<open>generate_group\<close> returns (the function drops it).\<close>

definition to_process_left :: "(matrix list \<Rightarrow> matrix list) \<Rightarrow> matrix list \<Rightarrow> int \<Rightarrow> matrix list" where
  "to_process_left ord generators max_size =
     fst (snd (closure_loop ord max_size (initial_group generators, generators, [])))"

subsection \<open>The closure of a pair in the test suite\<close>

text \<open>
  \<open>generate_group_from_pair\<close> (test suite) is the same loop for two generators, with no
  size test inside the \<open>for\<close> loops: every new product is added and queued.
\<close>

fun add_products :: "matrix list \<Rightarrow> matrix list \<times> matrix list \<Rightarrow> matrix list \<times> matrix list" where
  "add_products [] (G, Q) = (G, Q)"
| "add_products (p # ps) (G, Q) =
     (if p \<notin> set G then add_products ps (G @ [p], Q @ [p])
      else add_products ps (G, Q))"

definition expand_pair :: "matrix \<Rightarrow> matrix list \<Rightarrow> matrix list \<times> matrix list \<Rightarrow> matrix list \<times> matrix list" where
  "expand_pair current snapshot GQ =
     fold (\<lambda>elem. add_products
             [matrix_mult_mod3 current elem, matrix_mult_mod3 elem current]) snapshot GQ"

lemma add_products_measure:
  assumes "\<forall>p \<in> set ps. in_F3 p" and "add_products ps (G, Q) = (G', Q')"
  shows "2 * unseen G' + length Q' \<le> 2 * unseen G + length Q"
  using assms
proof (induction ps arbitrary: G Q)
  case Nil
  then show ?case by simp
next
  case (Cons p ps)
  show ?case
  proof (cases "p \<in> set G")
    case True
    with Cons show ?thesis by simp
  next
    case False
    with Cons.prems have u: "Suc (unseen (G @ [p])) = unseen G"
      by (intro unseen_append) simp_all
    from False Cons.prems have "add_products ps (G @ [p], Q @ [p]) = (G', Q')" by simp
    with Cons.IH [of "G @ [p]" "Q @ [p]"] Cons.prems(1)
    have "2 * unseen G' + length Q' \<le> 2 * unseen (G @ [p]) + length (Q @ [p])" by simp
    with u show ?thesis by simp
  qed
qed

lemma expand_pair_measure:
  assumes "expand_pair current snapshot (G, Q) = (G', Q')"
  shows "2 * unseen G' + length Q' \<le> 2 * unseen G + length Q"
  using assms
proof (induction snapshot arbitrary: G Q)
  case Nil
  then show ?case by (simp add: expand_pair_def)
next
  case (Cons e es)
  obtain G1 Q1 where step: "add_products
      [matrix_mult_mod3 current e, matrix_mult_mod3 e current] (G, Q) = (G1, Q1)"
    by (cases "add_products [matrix_mult_mod3 current e, matrix_mult_mod3 e current] (G, Q)")
  then have "2 * unseen G1 + length Q1 \<le> 2 * unseen G + length Q"
    by (intro add_products_measure [OF _ step]) (simp add: in_F3_mult)
  moreover from Cons.prems step have "expand_pair current es (G1, Q1) = (G', Q')"
    by (simp add: expand_pair_def)
  then have "2 * unseen G' + length Q' \<le> 2 * unseen G1 + length Q1"
    by (rule Cons.IH)
  ultimately show ?case by simp
qed

function pair_loop ::
  "(matrix list \<Rightarrow> matrix list) \<Rightarrow> int \<Rightarrow> matrix list \<times> matrix list \<times> matrix list
     \<Rightarrow> matrix list \<times> matrix list \<times> matrix list" where
  "pair_loop ord max_size (G, Q, P) =
     (case Q of
        [] \<Rightarrow> (G, Q, P)
      | current # rest \<Rightarrow>
          if int (length G) < max_size then
            (if current \<in> set P then pair_loop ord max_size (G, rest, P)
             else (case expand_pair current (ord G) (G, rest) of
                     (G', Q') \<Rightarrow> pair_loop ord max_size (G', Q', current # P)))
          else (G, Q, P))"
  by pat_completeness auto
termination
  by (relation "measure (\<lambda>(ord, max_size, G, Q, P). 2 * unseen G + length Q)")
     (auto dest!: expand_pair_measure [OF sym])

definition generate_group_from_pair ::
  "(matrix list \<Rightarrow> matrix list) \<Rightarrow> matrix \<Rightarrow> matrix \<Rightarrow> int \<Rightarrow> matrix list" where
  "generate_group_from_pair ord M1 M2 max_size =
     fst (pair_loop ord max_size (fold set_add [identity, M1, M2] [], [M1, M2], []))"

section \<open>The minimality check of the generator search\<close>

text \<open>
  \<open>self.operators[i]\<close>: Python list indexing, where a negative index counts from the end
  and an index out of range raises \<open>IndexError\<close> (\<open>None\<close> in the model).
\<close>

definition py_index :: "'a list \<Rightarrow> int \<Rightarrow> 'a option" where
  "py_index xs i =
     (if 0 \<le> i \<and> i < int (length xs) then Some (xs ! nat i)
      else if i < 0 \<and> - int (length xs) \<le> i then Some (xs ! nat (int (length xs) + i))
      else None)"

text \<open>\<open>[self.operators[i] for i in indices]\<close>.\<close>

definition select_ops :: "matrix list \<Rightarrow> int list \<Rightarrow> matrix list option" where
  "select_ops operators indices = those (map (py_index operators) indices)"

text \<open>
  The loop \<open>for i in range(k)\<close> of \<open>verify_minimality\<close>: the tuple without its i-th entry
  is \<open>generating_tuple[:i] + generating_tuple[i+1:]\<close>; a reduced closure of exactly 432
  elements returns \<open>False\<close>.
\<close>

fun reduced_check ::
  "(matrix list \<Rightarrow> matrix list) \<Rightarrow> matrix list \<Rightarrow> int list \<Rightarrow> nat list \<Rightarrow> bool option" where
  "reduced_check ord operators generating_tuple [] = Some True"
| "reduced_check ord operators generating_tuple (i # is) =
     (case select_ops operators (take i generating_tuple @ drop (i + 1) generating_tuple) of
        None \<Rightarrow> None
      | Some reduced_generators \<Rightarrow>
          if length (generate_group ord reduced_generators 432) = 432 then Some False
          else reduced_check ord operators generating_tuple is)"

text \<open>\<open>verify_minimality\<close>; \<open>None\<close> stands for the \<open>IndexError\<close> of an index outside the pool.\<close>

definition verify_minimality ::
  "(matrix list \<Rightarrow> matrix list) \<Rightarrow> matrix list \<Rightarrow> int list \<Rightarrow> bool option" where
  "verify_minimality ord operators generating_tuple =
     (let k = length generating_tuple in
      if k = 1 then Some True
      else (case select_ops operators generating_tuple of
              None \<Rightarrow> None
            | Some full_generators \<Rightarrow>
                if length (generate_group ord full_generators 432) \<noteq> 432 then Some False
                else reduced_check ord operators generating_tuple [0..<k]))"

section \<open>Loading the operator pool\<close>


text \<open>
  The white space of \<open>str.strip\<close> (\<open>str.isspace\<close>) among the code points below 256: tab to
  carriage return, the four separators 0x1C to 0x1F, space, next line 0x85 and no-break
  space 0xA0.
\<close>

definition is_space :: "char \<Rightarrow> bool" where
  "is_space c = ((of_char c :: nat) \<in> set [9, 10, 11, 12, 13, 28, 29, 30, 31, 32, 133, 160])"


definition strip_with :: "(char \<Rightarrow> bool) \<Rightarrow> string \<Rightarrow> string" where
  "strip_with blank s = rev (dropWhile blank (rev (dropWhile blank s)))"

definition strip :: "string \<Rightarrow> string" where
  "strip s = strip_with is_space s"

text \<open>\<open>s.split(',')\<close>: the fields between commas, at least one, possibly empty.\<close>

fun split_comma :: "string \<Rightarrow> string list" where
  "split_comma [] = [[]]"
| "split_comma (c # cs) =
     (if c = CHR '','' then [] # split_comma cs
      else (case split_comma cs of
              p # ps \<Rightarrow> (c # p) # ps
            | [] \<Rightarrow> [[c]]))"

text \<open>
  \<open>int(s)\<close> on a string: white space around, an optional sign, then decimal digits in
  which single underscores may separate digits. \<open>parse_int\<close> is the scan of the syntax
  with the value of the digits.
\<close>

definition digit_value :: "char \<Rightarrow> int option" where
  "digit_value c =
     (let n = (of_char c :: nat) in if 48 \<le> n \<and> n \<le> 57 then Some (int n - 48) else None)"

fun parse_digits :: "int \<Rightarrow> bool \<Rightarrow> string \<Rightarrow> int option" where
  "parse_digits acc after_digit [] = (if after_digit then Some acc else None)"
| "parse_digits acc after_digit (c # cs) =
     (case digit_value c of
        Some d \<Rightarrow> parse_digits (10 * acc + d) True cs
      | None \<Rightarrow> if c = CHR ''_'' \<and> after_digit then parse_digits acc False cs else None)"












section \<open>Notions used in the statements and proofs\<close>

text \<open>
  The reduced kernel test that the design notes of the specification propose: the two
  basis vectors only.
\<close>

definition check_basis_only :: "matrix \<Rightarrow> bool" where
  "check_basis_only M = list_all (leaves_H M) H_basis"

text \<open>The 54 doubly stochastic matrices written out.\<close>

definition listed_54 :: "matrix list" where
  "listed_54 =
 [((0, 0, 1), (0, 1, 0), (1, 0, 0)), ((0, 0, 1), (0, 2, 2), (1, 2, 1)),
  ((0, 0, 1), (1, 0, 0), (0, 1, 0)), ((0, 0, 1), (1, 2, 1), (0, 2, 2)),
  ((0, 0, 1), (2, 0, 2), (2, 1, 1)), ((0, 0, 1), (2, 1, 1), (2, 0, 2)),
  ((0, 1, 0), (0, 0, 1), (1, 0, 0)), ((0, 1, 0), (0, 2, 2), (1, 1, 2)),
  ((0, 1, 0), (1, 0, 0), (0, 0, 1)), ((0, 1, 0), (1, 1, 2), (0, 2, 2)),
  ((0, 1, 0), (2, 1, 1), (2, 2, 0)), ((0, 1, 0), (2, 2, 0), (2, 1, 1)),
  ((0, 2, 2), (0, 0, 1), (1, 2, 1)), ((0, 2, 2), (0, 1, 0), (1, 1, 2)),
  ((0, 2, 2), (1, 1, 2), (0, 1, 0)), ((0, 2, 2), (1, 2, 1), (0, 0, 1)),
  ((0, 2, 2), (2, 0, 2), (2, 2, 0)), ((0, 2, 2), (2, 2, 0), (2, 0, 2)),
  ((1, 0, 0), (0, 0, 1), (0, 1, 0)), ((1, 0, 0), (0, 1, 0), (0, 0, 1)),
  ((1, 0, 0), (1, 1, 2), (2, 0, 2)), ((1, 0, 0), (1, 2, 1), (2, 2, 0)),
  ((1, 0, 0), (2, 0, 2), (1, 1, 2)), ((1, 0, 0), (2, 2, 0), (1, 2, 1)),
  ((1, 1, 2), (0, 1, 0), (0, 2, 2)), ((1, 1, 2), (0, 2, 2), (0, 1, 0)),
  ((1, 1, 2), (1, 0, 0), (2, 0, 2)), ((1, 1, 2), (1, 2, 1), (2, 1, 1)),
  ((1, 1, 2), (2, 0, 2), (1, 0, 0)), ((1, 1, 2), (2, 1, 1), (1, 2, 1)),
  ((1, 2, 1), (0, 0, 1), (0, 2, 2)), ((1, 2, 1), (0, 2, 2), (0, 0, 1)),
  ((1, 2, 1), (1, 0, 0), (2, 2, 0)), ((1, 2, 1), (1, 1, 2), (2, 1, 1)),
  ((1, 2, 1), (2, 1, 1), (1, 1, 2)), ((1, 2, 1), (2, 2, 0), (1, 0, 0)),
  ((2, 0, 2), (0, 0, 1), (2, 1, 1)), ((2, 0, 2), (0, 2, 2), (2, 2, 0)),
  ((2, 0, 2), (1, 0, 0), (1, 1, 2)), ((2, 0, 2), (1, 1, 2), (1, 0, 0)),
  ((2, 0, 2), (2, 1, 1), (0, 0, 1)), ((2, 0, 2), (2, 2, 0), (0, 2, 2)),
  ((2, 1, 1), (0, 0, 1), (2, 0, 2)), ((2, 1, 1), (0, 1, 0), (2, 2, 0)),
  ((2, 1, 1), (1, 1, 2), (1, 2, 1)), ((2, 1, 1), (1, 2, 1), (1, 1, 2)),
  ((2, 1, 1), (2, 0, 2), (0, 0, 1)), ((2, 1, 1), (2, 2, 0), (0, 1, 0)),
  ((2, 2, 0), (0, 1, 0), (2, 1, 1)), ((2, 2, 0), (0, 2, 2), (2, 0, 2)),
  ((2, 2, 0), (1, 0, 0), (1, 2, 1)), ((2, 2, 0), (1, 2, 1), (1, 0, 0)),
  ((2, 2, 0), (2, 0, 2), (0, 2, 2)), ((2, 2, 0), (2, 1, 1), (0, 1, 0))]"

text \<open>The n-th power over the integers, to state what the loop finds.\<close>

fun mat_power :: "matrix \<Rightarrow> nat \<Rightarrow> matrix" where
  "mat_power M 0 = identity"
| "mat_power M (Suc n) = mat_mul (mat_power M n) M"

text \<open>
  Nine nested loops over the field are three nested loops over the 27 rows. Counting
  over the 19683 matrices is done on that structure: a predicate on single rows first
  thins the rows, and the determinant is linear in the third row.
\<close>

definition vecs_over :: "int list \<Rightarrow> vec list" where
  "vecs_over F = [(a, b, c). a \<leftarrow> F, b \<leftarrow> F, c \<leftarrow> F]"

definition triples :: "'a list \<Rightarrow> 'a list \<Rightarrow> 'a list \<Rightarrow> ('a \<times> 'a \<times> 'a) list" where
  "triples xs ys zs = [(x, y, z). x \<leftarrow> xs, y \<leftarrow> ys, z \<leftarrow> zs]"

definition conj3 :: "('a \<Rightarrow> bool) \<Rightarrow> ('a \<times> 'a \<times> 'a \<Rightarrow> bool) \<Rightarrow> 'a \<times> 'a \<times> 'a \<Rightarrow> bool" where
  "conj3 P Q t = (P (fst t) \<and> P (fst (snd t)) \<and> P (snd (snd t)) \<and> Q t)"

definition cross :: "vec \<Rightarrow> vec \<Rightarrow> vec" where
  "cross u v = (case u of (a, b, c) \<Rightarrow> case v of (d, e, f) \<Rightarrow>
      (b * f - c * e, c * d - a * f, a * e - b * d))"

definition nonzero3 :: "vec \<Rightarrow> bool" where
  "nonzero3 u = (case u of (a, b, c) \<Rightarrow> a mod 3 \<noteq> 0 \<or> b mod 3 \<noteq> 0 \<or> c mod 3 \<noteq> 0)"

definition stochastic_row :: "vec \<Rightarrow> bool" where
  "stochastic_row r = (vsum r mod 3 = 1)"

definition stochastic_rows :: "vec list" where
  "stochastic_rows =
     [(0, 0, 1), (0, 1, 0), (0, 2, 2), (1, 0, 0), (1, 1, 2), (1, 2, 1), (2, 0, 2), (2, 1, 1), (2, 2, 0)]"

definition stochastic_triples :: "matrix list" where
  "stochastic_triples = triples stochastic_rows stochastic_rows stochastic_rows"

text \<open>The column sums: \<open>sum(M @ v)\<close> is their dot product with \<open>v\<close>.\<close>

fun col_sums :: "matrix \<Rightarrow> vec" where
  "col_sums ((a, b, c), (d, e, f), (g, h, i)) = (a + d + g, b + e + h, c + f + i)"

text \<open>The 432 row-stochastic matrices of GL(3, F3).\<close>

definition conservation_ops :: "matrix list" where
  "conservation_ops = filter check_conservation generate_gl3_f3"

text \<open>
  The invariant of the closure loop while the cap is not reached: every member of the
  group is the identity, processed or queued, and both products of a processed element
  with a member are in the group unless that member is still waiting in the queue.
\<close>

definition explored :: "matrix list \<Rightarrow> matrix list \<Rightarrow> matrix list \<Rightarrow> bool" where
  "explored G Q P =
     (distinct G \<and> identity \<in> set G \<and> set P \<subseteq> set G \<and> set Q \<subseteq> set G
      \<and> set G \<subseteq> insert identity (set P \<union> set Q)
      \<and> (\<forall>x \<in> set P. \<forall>y \<in> set G. (y \<in> set Q \<and> y \<notin> set P)
            \<or> (matrix_mult_mod3 x y \<in> set G \<and> matrix_mult_mod3 y x \<in> set G)))"

text \<open>Two of the six known operators, and a permutation matrix of order 3 with its square.\<close>

definition op_a :: matrix where "op_a = ((0, 1, 0), (0, 2, 2), (1, 0, 0))"

definition op_b :: matrix where "op_b = ((0, 1, 0), (0, 2, 2), (1, 2, 1))"

definition cycle3 :: matrix where "cycle3 = ((0, 0, 1), (1, 0, 0), (0, 1, 0))"

definition cycle3_sq :: matrix where "cycle3_sq = ((0, 1, 0), (0, 0, 1), (1, 0, 0))"

text \<open>
  A pool on which closures overshoot the cap: 431 matrices with one entry, congruent to
  2 modulo 3, in the corner. All their products modulo 3 are \<open>corner 0\<close>, \<open>corner 1\<close> or
  \<open>corner 2\<close>, none of which is in the pool.
\<close>

definition corner :: "int \<Rightarrow> matrix" where
  "corner a = ((a, 0, 0), (0, 0, 0), (0, 0, 0))"

definition pool_431 :: "matrix list" where
  "pool_431 = map (\<lambda>j. corner (3 * int j + 5)) [0..<431]"

definition all_431 :: "int list" where
  "all_431 = map int [0..<431]"

text \<open>
  What it is for a string to write an integer, stated apart from the scanner of the
  model. A digit group is a non-empty run of the digits 0 to 9; an unsigned literal is a
  digit group followed by any number of groups, each after one underscore, and its value
  is that of the digits read in base ten. A signed literal is an unsigned literal with
  \<open>+\<close>, \<open>-\<close> or nothing directly before it and with the white space of \<open>int\<close> around. An
  integer literal is a signed literal whose number of digits is within the limit of the
  interpreter.
\<close>

definition is_digit :: "char \<Rightarrow> bool" where
  "is_digit c = (48 \<le> (of_char c :: nat) \<and> (of_char c :: nat) \<le> 57)"

definition shift_digit :: "int \<Rightarrow> char \<Rightarrow> int" where
  "shift_digit acc c = 10 * acc + (int (of_char c) - 48)"

definition decimal_value :: "string \<Rightarrow> int" where
  "decimal_value ds = foldl shift_digit 0 ds"

definition digit_group :: "string \<Rightarrow> bool" where
  "digit_group g = (g \<noteq> [] \<and> list_all is_digit g)"

definition unsigned_literal :: "string \<Rightarrow> int \<Rightarrow> bool" where
  "unsigned_literal body v =
     (\<exists>g gs. digit_group g \<and> list_all digit_group gs
        \<and> body = g @ concat (map (\<lambda>h. CHR ''_'' # h) gs)
        \<and> v = decimal_value (g @ concat gs))"









text \<open>Joining fields with commas, the inverse of \<open>split_comma\<close>.\<close>

fun join_comma :: "string list \<Rightarrow> string" where
  "join_comma [] = []"
| "join_comma [p] = p"
| "join_comma (p # q # ps) = p @ CHR '','' # join_comma (q # ps)"

section \<open>Counting the strata\<close>

subsection \<open>The enumeration by rows\<close>

lemma concat_map_concat_map:
  "concat (map f (concat (map g xs))) = concat (map (\<lambda>x. concat (map f (g x))) xs)"
  by (induction xs) simp_all

lemma bind_vecs_over:
  "List.bind (vecs_over F) g =
     List.bind F (\<lambda>a. List.bind F (\<lambda>b. List.bind F (\<lambda>c. g (a, b, c))))"
  unfolding vecs_over_def List.bind_def by (simp add: concat_map_concat_map comp_def)

lemma map_vecs_over:
  "map g (vecs_over F) =
     List.bind F (\<lambda>a. List.bind F (\<lambda>b. map (\<lambda>c. g (a, b, c)) F))"
  unfolding vecs_over_def List.bind_def by (simp add: map_concat comp_def)

lemma triples_bind:
  "triples xs ys zs = List.bind xs (\<lambda>x. List.bind ys (\<lambda>y. map (\<lambda>z. (x, y, z)) zs))"
  unfolding triples_def List.bind_def ..

lemma nine_loops_are_three:
  "[((a, b, c), (d, e, f), (g, h, i)).
      a \<leftarrow> F, b \<leftarrow> F, c \<leftarrow> F, d \<leftarrow> F, e \<leftarrow> F,
      f \<leftarrow> F, g \<leftarrow> F, h \<leftarrow> F, i \<leftarrow> F]
   = triples (vecs_over F) (vecs_over F) (vecs_over F)"
  by (simp only: triples_bind bind_vecs_over map_vecs_over) (simp only: List.bind_def)

lemma raw_matrices_rows:
  "raw_matrices = triples (vecs_over field3) (vecs_over field3) (vecs_over field3)"
  unfolding raw_matrices_def by (rule nine_loops_are_three)

lemma triples_product: "triples xs ys zs = List.product xs (List.product ys zs)"
proof -
  have inner: "concat (map (\<lambda>y. map (\<lambda>z. (x, y, z)) zs) ys) = map (Pair x) (List.product ys zs)"
    for x :: 'a
    by (induction ys) simp_all
  show ?thesis
    unfolding triples_def by (induction xs) (simp_all add: inner)
qed

lemma vecs_over_product: "vecs_over F = List.product F (List.product F F)"
  using triples_product [of F F F] by (simp add: triples_def vecs_over_def)

lemma distinct_vecs_over: "distinct F \<Longrightarrow> distinct (vecs_over F)"
  by (simp add: vecs_over_product distinct_product)

lemma distinct_triples:
  "distinct xs \<Longrightarrow> distinct ys \<Longrightarrow> distinct zs \<Longrightarrow> distinct (triples xs ys zs)"
  by (simp add: triples_product distinct_product)

lemma length_vecs_over: "length (vecs_over F) = length F * (length F * length F)"
  by (simp add: vecs_over_product)

lemma length_triples: "length (triples xs ys zs) = length xs * (length ys * length zs)"
  by (simp add: triples_product)

lemma distinct_raw_matrices: "distinct raw_matrices"
proof -
  have "distinct field3" by (simp add: field3_def)
  then show ?thesis
    unfolding raw_matrices_rows by (intro distinct_triples distinct_vecs_over)
qed

lemma length_raw_matrices: "length raw_matrices = 19683"
proof -
  have "length field3 = 3" by (simp add: field3_def)
  then show ?thesis
    unfolding raw_matrices_rows by (simp add: length_triples length_vecs_over)
qed

lemma set_vecs_over: "set (vecs_over F) = {(a, b, c). a \<in> set F \<and> b \<in> set F \<and> c \<in> set F}"
  unfolding vecs_over_def by auto

lemma set_triples: "set (triples xs ys zs) = {(x, y, z). x \<in> set xs \<and> y \<in> set ys \<and> z \<in> set zs}"
  unfolding triples_def by auto

lemma filter_triples_inner:
  "filter (conj3 P Q) (map (\<lambda>z. (x, y, z)) zs)
   = (if P x \<and> P y then filter Q (map (\<lambda>z. (x, y, z)) (filter P zs)) else [])"
  by (induction zs) (simp_all add: conj3_def)

lemma filter_triples_mid:
  "filter (conj3 P Q) (concat (map (\<lambda>y. map (\<lambda>z. (x, y, z)) zs) ys))
   = (if P x then filter Q (concat (map (\<lambda>y. map (\<lambda>z. (x, y, z)) (filter P zs)) (filter P ys)))
      else [])"
  by (induction ys) (simp_all add: filter_triples_inner)

lemma filter_triples:
  "filter (conj3 P Q) (triples xs ys zs)
   = filter Q (triples (filter P xs) (filter P ys) (filter P zs))"
  unfolding triples_def by (induction xs) (simp_all add: filter_triples_mid)

lemma length_filter_triples:
  "length (filter Q (triples xs ys zs))
   = sum_list (map (\<lambda>(x, y). length (filter (\<lambda>z. Q (x, y, z)) zs)) (List.product xs ys))"
proof -
  have inner: "length (filter Q (map (\<lambda>z. (x, y, z)) zs)) = length (filter (\<lambda>z. Q (x, y, z)) zs)"
    for x y by (induction zs) simp_all
  have mid: "length (filter Q (concat (map (\<lambda>y. map (\<lambda>z. (x, y, z)) zs) ys)))
      = sum_list (map (\<lambda>y. length (filter (\<lambda>z. Q (x, y, z)) zs)) ys)" for x
    by (induction ys) (simp_all add: inner comp_def)
  show ?thesis
    unfolding triples_def
    by (induction xs) (simp_all add: mid comp_def)
qed

lemma sum_list_if_const:
  "sum_list (map (\<lambda>x. if P x then (k::nat) else 0) xs) = k * length (filter P xs)"
  by (induction xs) simp_all

subsection \<open>The order of GL(3, F3)\<close>

lemma det_cross: "det (u, v, w) = dot (cross u v) w"
  by (cases u, cases v, cases w) (simp add: dot_def cross_def algebra_simps)

lemma dot_mod3: "dot c r mod 3 = dot (vec_mod3 c) r mod 3"
proof -
  obtain a b c' where c: "c = (a, b, c')" by (cases c)
  obtain d e f where r: "r = (d, e, f)" by (cases r)
  have "(a * d + b * e + c' * f) mod 3 = (a mod 3 * d + b mod 3 * e + c' mod 3 * f) mod 3"
    by (intro mod_add_cong mod_mult_cong) simp_all
  then show ?thesis by (simp add: c r dot_def)
qed

lemma vec_mod3_in: "vec_mod3 c \<in> set (vecs_over field3)"
  using mod3_cases by (cases c) (auto simp: set_vecs_over field3_def)

lemma count_third_row_small:
  "list_all (\<lambda>c. length (filter (\<lambda>r. dot c r mod 3 \<noteq> 0) (vecs_over field3))
      = (if nonzero3 c then 18 else 0)) (vecs_over field3)"
  by code_simp

lemma count_third_row:
  "length (filter (\<lambda>r. dot c r mod 3 \<noteq> 0) (vecs_over field3)) = (if nonzero3 c then 18 else 0)"
proof -
  have "nonzero3 (vec_mod3 c) = nonzero3 c" by (cases c) (simp add: nonzero3_def)
  moreover have "length (filter (\<lambda>r. dot (vec_mod3 c) r mod 3 \<noteq> 0) (vecs_over field3))
      = (if nonzero3 (vec_mod3 c) then 18 else 0)"
    using count_third_row_small vec_mod3_in [of c] unfolding list_all_iff by blast
  ultimately show ?thesis by (simp add: dot_mod3 [of c])
qed

lemma count_invertible_third:
  "length (filter (\<lambda>w. invertible (u, v, w)) (vecs_over field3))
     = (if nonzero3 (cross u v) then 18 else 0)"
  unfolding invertible_def det_cross by (rule count_third_row)

lemma count_independent_pairs:
  "length (filter (\<lambda>(u, v). nonzero3 (cross u v))
      (List.product (vecs_over field3) (vecs_over field3))) = 624"
  by code_simp

lemma length_generate_gl3_f3: "length generate_gl3_f3 = 11232"
proof -
  let ?V = "vecs_over field3"
  have "length generate_gl3_f3
    = sum_list (map (\<lambda>(u, v). length (filter (\<lambda>w. invertible (u, v, w)) ?V)) (List.product ?V ?V))"
    unfolding generate_gl3_f3_def raw_matrices_rows by (rule length_filter_triples)
  also have "\<dots> = sum_list (map (\<lambda>p. if nonzero3 (cross (fst p) (snd p)) then 18 else 0)
        (List.product ?V ?V))"
    by (simp add: count_invertible_third split_def)
  also have "\<dots> = 18 * 624"
    using count_independent_pairs by (simp add: sum_list_if_const split_def)
  finally show ?thesis by simp
qed

subsection \<open>The row-stochastic strata\<close>

lemma stochastic_rows_eq: "filter stochastic_row (vecs_over field3) = stochastic_rows"
  by code_simp

lemma filter_conj3_raw:
  "filter (conj3 stochastic_row Q) raw_matrices = filter Q stochastic_triples"
  unfolding raw_matrices_rows filter_triples stochastic_rows_eq stochastic_triples_def ..

lemma check_conservation_conj3:
  "(check_conservation M \<and> Q M) = conj3 stochastic_row Q M"
  by (cases M) (simp add: check_conservation_def conj3_def stochastic_row_def)

lemma filter_conservation_gl3:
  "filter (\<lambda>M. check_conservation M \<and> Q M) generate_gl3_f3
     = filter (\<lambda>M. invertible M \<and> Q M) stochastic_triples"
proof -
  have "filter (\<lambda>M. check_conservation M \<and> Q M) generate_gl3_f3
      = filter (\<lambda>M. check_conservation M \<and> (invertible M \<and> Q M)) raw_matrices"
    unfolding generate_gl3_f3_def by (auto simp: filter_filter intro: filter_cong)
  also have "\<dots> = filter (conj3 stochastic_row (\<lambda>M. invertible M \<and> Q M)) raw_matrices"
    by (rule filter_cong [OF refl]) (rule check_conservation_conj3)
  finally show ?thesis by (simp only: filter_conj3_raw)
qed

lemma row_and_col_conservation:
  "check_row_and_col M =
     (check_conservation M \<and> list_all (\<lambda>c. vsum c mod 3 = 1) (cols_of M))"
  by (simp add: check_row_and_col_def check_conservation_def)

lemma count_432_triples:
  "length (filter (\<lambda>M. invertible M \<and> True) stochastic_triples) = 432"
  by code_simp

lemma listed_54_triples:
  "filter (\<lambda>M. invertible M \<and> list_all (\<lambda>c. vsum c mod 3 = 1) (cols_of M)) stochastic_triples
     = listed_54"
  by code_simp

lemma count_108_triples:
  "length (filter (\<lambda>M. invertible M \<and> check_normalizes_h M) stochastic_triples) = 108"
  by code_simp

lemma length_conservation: "length (filter check_conservation generate_gl3_f3) = 432"
  using filter_conservation_gl3 [of "\<lambda>M. True"] count_432_triples by simp

lemma ops_54_listed: "ops_54 = listed_54"
  unfolding ops_54_def
  using filter_conservation_gl3 [of "\<lambda>M. list_all (\<lambda>c. vsum c mod 3 = 1) (cols_of M)"]
  by (simp only: listed_54_triples flip: row_and_col_conservation)

lemma length_listed_54: "length listed_54 = 54"
  by (simp add: listed_54_def)

subsection \<open>Membership in the strata\<close>

lemma set_raw_matrices: "set raw_matrices = {M. in_F3 M}"
  unfolding raw_matrices_rows set_triples set_vecs_over
  by (auto simp: in_F3_def)

lemma mem_generate_gl3_f3: "M \<in> set generate_gl3_f3 \<longleftrightarrow> in_F3 M \<and> invertible M"
  by (auto simp: generate_gl3_f3_def set_raw_matrices)

lemma mem_ops_54: "M \<in> set ops_54 \<longleftrightarrow> in_F3 M \<and> invertible M \<and> check_row_and_col M"
  by (auto simp: ops_54_def mem_generate_gl3_f3)

section \<open>The doubly stochastic matrices form a group\<close>

lemma det_mat_mul: "det (mat_mul A B) = det A * det B"
proof -
  obtain a b c d e f g h i where A: "A = ((a, b, c), (d, e, f), (g, h, i))"
    by (metis prod_cases3)
  obtain a' b' c' d' e' f' g' h' i' where B: "B = ((a', b', c'), (d', e', f'), (g', h', i'))"
    by (metis prod_cases3)
  show ?thesis
    unfolding A B by (simp add: dot_def algebra_simps)
qed

lemma det_mat_mod3: "det (mat_mod3 M) mod 3 = det M mod 3"
proof -
  obtain a b c d e f g h i where M: "M = ((a, b, c), (d, e, f), (g, h, i))"
    by (metis prod_cases3)
  have "det ((a mod 3, b mod 3, c mod 3), (d mod 3, e mod 3, f mod 3), (g mod 3, h mod 3, i mod 3)) mod 3
      = det ((a, b, c), (d, e, f), (g, h, i)) mod 3"
    unfolding det.simps
    by (intro mod_add_cong mod_diff_cong mod_mult_cong) simp_all
  then show ?thesis by (simp add: M)
qed

lemma mult_mod3_nonzero:
  fixes x y :: int
  assumes "x mod 3 \<noteq> 0" and "y mod 3 \<noteq> 0"
  shows "(x * y) mod 3 \<noteq> 0"
proof -
  have "(x * y) mod 3 = ((x mod 3) * (y mod 3)) mod 3" by (simp add: mod_mult_eq)
  moreover have "x mod 3 = 1 \<or> x mod 3 = 2" using assms(1) mod3_cases [of x] by simp
  moreover have "y mod 3 = 1 \<or> y mod 3 = 2" using assms(2) mod3_cases [of y] by simp
  ultimately show ?thesis by auto
qed

lemma invertible_mult:
  "invertible A \<Longrightarrow> invertible B \<Longrightarrow> invertible (matrix_mult_mod3 A B)"
  unfolding invertible_def matrix_mult_mod3_def det_mat_mod3 det_mat_mul
  by (rule mult_mod3_nonzero)

lemma sum_mod3: "((x::int) mod 3 + y mod 3 + z mod 3) mod 3 = (x + y + z) mod 3"
  by presburger

lemma weighted_sum_mod3:
  fixes a b c s0 s1 s2 :: int
  assumes "s0 mod 3 = 1" "s1 mod 3 = 1" "s2 mod 3 = 1" "(a + b + c) mod 3 = 1"
  shows "(a * s0 + b * s1 + c * s2) mod 3 = 1"
proof -
  have "(a * s0 + b * s1 + c * s2) mod 3 = (a * (s0 mod 3) + b * (s1 mod 3) + c * (s2 mod 3)) mod 3"
    by (intro mod_add_cong mod_mult_cong) simp_all
  then show ?thesis using assms by simp
qed

lemma conservation_mult:
  assumes "check_conservation A" and "check_conservation B"
  shows "check_conservation (matrix_mult_mod3 A B)"
proof -
  obtain a b c d e f g h i where A: "A = ((a, b, c), (d, e, f), (g, h, i))"
    by (metis prod_cases3)
  obtain a' b' c' d' e' f' g' h' i' where B: "B = ((a', b', c'), (d', e', f'), (g', h', i'))"
    by (metis prod_cases3)
  from assms(2) have B1: "(a' + b' + c') mod 3 = 1" "(d' + e' + f') mod 3 = 1" "(g' + h' + i') mod 3 = 1"
    by (simp_all add: B check_conservation_def)
  from assms(1) have A1: "(a + b + c) mod 3 = 1" "(d + e + f) mod 3 = 1" "(g + h + i) mod 3 = 1"
    by (simp_all add: A check_conservation_def)
  have row: "((x * a' + y * d' + z * g') mod 3 + (x * b' + y * e' + z * h') mod 3
      + (x * c' + y * f' + z * i') mod 3) mod 3 = 1" if "(x + y + z) mod 3 = 1" for x y z
  proof -
    have "(x * a' + y * d' + z * g') + (x * b' + y * e' + z * h') + (x * c' + y * f' + z * i')
        = x * (a' + b' + c') + y * (d' + e' + f') + z * (g' + h' + i')"
      by (simp add: algebra_simps)
    then show ?thesis
      using weighted_sum_mod3 [OF B1 that] by (simp only: sum_mod3)
  qed
  show ?thesis
    unfolding A B using A1 by (simp add: check_conservation_def matrix_mult_mod3_def dot_def row)
qed

lemma row_and_col_mult:
  assumes "check_row_and_col A" and "check_row_and_col B"
  shows "check_row_and_col (matrix_mult_mod3 A B)"
proof -
  obtain a b c d e f g h i where A: "A = ((a, b, c), (d, e, f), (g, h, i))"
    by (metis prod_cases3)
  obtain a' b' c' d' e' f' g' h' i' where B: "B = ((a', b', c'), (d', e', f'), (g', h', i'))"
    by (metis prod_cases3)
  from assms(1) have A1: "(a + d + g) mod 3 = 1" "(b + e + h) mod 3 = 1" "(c + f + i) mod 3 = 1"
    by (simp_all add: A check_row_and_col_def)
  from assms(2) have B1: "(a' + d' + g') mod 3 = 1" "(b' + e' + h') mod 3 = 1" "(c' + f' + i') mod 3 = 1"
    by (simp_all add: B check_row_and_col_def)
  have col: "((a * x + b * y + c * z) mod 3 + (d * x + e * y + f * z) mod 3
      + (g * x + h * y + i * z) mod 3) mod 3 = 1" if "(x + y + z) mod 3 = 1" for x y z
  proof -
    have "(a * x + b * y + c * z) + (d * x + e * y + f * z) + (g * x + h * y + i * z)
        = x * (a + d + g) + y * (b + e + h) + z * (c + f + i)"
      by (simp add: algebra_simps)
    then show ?thesis
      using weighted_sum_mod3 [OF A1 that] by (simp only: sum_mod3)
  qed
  have rows: "check_conservation (matrix_mult_mod3 A B)"
    using assms by (intro conservation_mult) (simp_all add: row_and_col_conservation)
  have "list_all (\<lambda>c. vsum c mod 3 = 1) (cols_of (matrix_mult_mod3 A B))"
    unfolding A B using B1 by (simp add: matrix_mult_mod3_def dot_def col)
  with rows show ?thesis by (simp add: row_and_col_conservation)
qed

lemma ops_54_closed:
  "A \<in> set ops_54 \<Longrightarrow> B \<in> set ops_54 \<Longrightarrow> matrix_mult_mod3 A B \<in> set ops_54"
  by (simp add: mem_ops_54 in_F3_mult invertible_mult row_and_col_mult)

lemma identity_in_ops_54: "identity \<in> set ops_54"
  by (simp add: mem_ops_54 identity_def in_F3_def field3_def invertible_def check_row_and_col_def)

subsection \<open>What the order loop returns\<close>

lemma mat_mod3_idem: "mat_mod3 (mat_mod3 M) = mat_mod3 M"
proof -
  obtain a b c d e f g h i where M: "M = ((a, b, c), (d, e, f), (g, h, i))"
    by (metis prod_cases3)
  show ?thesis unfolding M by simp
qed

lemma mat_mod3_mul_left: "mat_mod3 (mat_mul (mat_mod3 X) M) = mat_mod3 (mat_mul X M)"
proof -
  obtain a b c d e f g h i where X: "X = ((a, b, c), (d, e, f), (g, h, i))"
    by (metis prod_cases3)
  obtain a' b' c' d' e' f' g' h' i' where M: "M = ((a', b', c'), (d', e', f'), (g', h', i'))"
    by (metis prod_cases3)
  have row: "(x mod 3 * p + y mod 3 * q + z mod 3 * r) mod 3 = (x * p + y * q + z * r) mod 3"
    for x y z p q r :: int
    by (intro mod_add_cong mod_mult_cong) simp_all
  show ?thesis unfolding X M by (simp add: dot_def row)
qed

lemma order_loop_sound:
  assumes "order_loop M cur [k..<N] = Some n"
    and "mat_mod3 cur = mat_mod3 (mat_power M k)"
  shows "k \<le> n \<and> n < N \<and> mat_mod3 (mat_power M n) = identity
     \<and> (\<forall>j. k \<le> j \<and> j < n \<longrightarrow> mat_mod3 (mat_power M j) \<noteq> identity)"
  using assms
proof (induction "N - k" arbitrary: k cur)
  case 0
  then show ?case by simp
next
  case (Suc m)
  then have kN: "k < N" by simp
  then have upt: "[k..<N] = k # [Suc k..<N]" by (simp add: upt_rec)
  show ?case
  proof (cases "mat_mod3 cur = identity")
    case True
    with Suc.prems upt kN show ?thesis by auto
  next
    case False
    with Suc.prems upt have run: "order_loop M (matrix_mult_mod3 cur M) [Suc k..<N] = Some n"
      by simp
    have step: "mat_mod3 (matrix_mult_mod3 cur M) = mat_mod3 (mat_power M (Suc k))"
      using Suc.prems(2) mat_mod3_mul_left [of cur M] mat_mod3_mul_left [of "mat_power M k" M]
      by (simp add: matrix_mult_mod3_def mat_mod3_idem)
    from Suc.hyps(2) have "m = N - Suc k" by simp
    from Suc.hyps(1) [OF this run step]
    have IH: "Suc k \<le> n" "n < N" "mat_mod3 (mat_power M n) = identity"
      "\<forall>j. Suc k \<le> j \<and> j < n \<longrightarrow> mat_mod3 (mat_power M j) \<noteq> identity"
      by simp_all
    have "mat_mod3 (mat_power M j) \<noteq> identity" if "k \<le> j" "j < n" for j
    proof (cases "j = k")
      case True
      with False Suc.prems(2) show ?thesis by simp
    next
      case False
      with that IH(4) show ?thesis by simp
    qed
    with IH show ?thesis by simp
  qed
qed

lemma orders_54_small:
  "list_all (\<lambda>M. compute_order M \<in> set [Some 1, Some 2, Some 3, Some 6]
      \<and> compute_matrix_order M 20 \<in> set [1, 2, 3, 6]) listed_54"
  by code_simp

lemma mat_mul_identity_left: "mat_mul identity M = M"
proof -
  obtain a b c d e f g h i where M: "M = ((a, b, c), (d, e, f), (g, h, i))"
    by (metis prod_cases3)
  show ?thesis unfolding M by (simp add: identity_def dot_def)
qed

lemma order_in_ops_54:
  assumes "M \<in> set ops_54"
  shows "\<exists>n. n \<in> {1, 2, 3, 6} \<and> compute_order M = Some n \<and> compute_matrix_order M 20 = int n
     \<and> mat_mod3 (mat_power M n) = identity
     \<and> (\<forall>k. 0 < k \<and> k < n \<longrightarrow> mat_mod3 (mat_power M k) \<noteq> identity)"
proof -
  from assms orders_54_small have "compute_order M \<in> set [Some 1, Some 2, Some 3, Some 6]"
    unfolding ops_54_listed list_all_iff by blast
  then obtain n where n: "n \<in> {1, 2, 3, 6}" and run: "order_loop M M [1..<21] = Some n"
    unfolding compute_order_def by auto
  have "mat_mod3 M = mat_mod3 (mat_power M 1)"
    by (simp add: mat_mul_identity_left)
  from order_loop_sound [OF run this]
  have "mat_mod3 (mat_power M n) = identity"
    and "\<forall>k. 0 < k \<and> k < n \<longrightarrow> mat_mod3 (mat_power M k) \<noteq> identity"
    by (simp_all add: Suc_le_eq)
  with n run show ?thesis
    by (simp add: compute_order_def compute_matrix_order_def)
qed

section \<open>The kernel test is linear\<close>

lemma leaves_H_col_sums: "leaves_H M v = (dot (col_sums M) v mod 3 = 0)"
proof -
  obtain a b c d e f g h i where M: "M = ((a, b, c), (d, e, f), (g, h, i))"
    by (metis prod_cases3)
  obtain x y z where v: "v = (x, y, z)" by (cases v)
  have "(a * x + b * y + c * z) + (d * x + e * y + f * z) + (g * x + h * y + i * z)
      = (a + d + g) * x + (b + e + h) * y + (c + f + i) * z"
    by (simp add: algebra_simps)
  then show ?thesis
    unfolding M v by (simp add: leaves_H_def dot_def sum_mod3)
qed

lemma basis_implies_combinations:
  assumes "check_basis_only M"
  shows "check_combinations M"
proof -
  obtain s0 s1 s2 where s: "col_sums M = (s0, s1, s2)" by (cases "col_sums M")
  from assms have b: "(s0 + s1 * 2) mod 3 = 0" "(s1 + s2 * 2) mod 3 = 0"
    by (simp_all add: check_basis_only_def H_basis_def leaves_H_col_sums s dot_def)
  show ?thesis
    using b
    apply (simp add: check_combinations_def combination_def H_basis_def leaves_H_col_sums s dot_def)
    apply presburger
    done
qed

section \<open>Results on the filtration and on the 54-element group\<close>

text \<open>
  C1: of the 3^9 = 19683 raw matrices with entries in 0..2, exactly 11232 have a
  determinant that is nonzero modulo 3; of these, exactly 432 are row stochastic and
  exactly 54 are doubly stochastic, and every doubly stochastic one is among the 432.
\<close>

theorem filtration_cascade_counts:
  "length raw_matrices = 19683 \<and> distinct raw_matrices \<and> set raw_matrices = {M. in_F3 M}
   \<and> length generate_gl3_f3 = 11232
   \<and> length (filter check_conservation generate_gl3_f3) = 432
   \<and> length (filter check_row_and_col generate_gl3_f3) = 54
   \<and> set (filter check_row_and_col generate_gl3_f3)
        \<subseteq> set (filter check_conservation generate_gl3_f3)"
proof -
  have "length (filter check_row_and_col generate_gl3_f3) = 54"
    using ops_54_listed length_listed_54 by (simp add: ops_54_def)
  moreover have "set (filter check_row_and_col generate_gl3_f3)
      \<subseteq> set (filter check_conservation generate_gl3_f3)"
    by (auto simp: row_and_col_conservation)
  ultimately show ?thesis
    using length_raw_matrices distinct_raw_matrices set_raw_matrices length_generate_gl3_f3
      length_conservation
    by blast
qed

text \<open>
  C5: filtering GL(3, F3) by conservation together with the kernel test of
  \<open>check_normalizes_h\<close> leaves exactly 108 matrices.
\<close>

theorem conservation_and_normalizer_108:
  "length (filter (\<lambda>M. check_conservation M \<and> check_normalizes_h M) generate_gl3_f3) = 108"
  using filter_conservation_gl3 [of check_normalizes_h] count_108_triples by simp

text \<open>
  C7: on every matrix with entries in 0..2, \<open>check_normalizes_h\<close>, which tests the two
  basis vectors and then the eight nonzero combinations, returns what the test of the two
  basis vectors alone returns.
\<close>

theorem normalizes_h_basis_suffices:
  "in_F3 M \<Longrightarrow> check_normalizes_h M = check_basis_only M"
  using basis_implies_combinations [of M]
  by (auto simp: check_normalizes_h_def check_basis_only_def)

theorem normalizes_h_basis_suffices_witness:
  "in_F3 ((0, 0, 1), (1, 0, 0), (0, 1, 0))
   \<and> check_normalizes_h ((0, 0, 1), (1, 0, 0), (0, 1, 0))
   \<and> check_basis_only ((0, 0, 1), (1, 0, 0), (0, 1, 0))"
proof -
  have F: "in_F3 ((0, 0, 1), (1, 0, 0), (0, 1, 0))"
    by (simp add: in_F3_def field3_def)
  have "check_basis_only ((0, 0, 1), (1, 0, 0), (0, 1, 0))"
    by (simp add: check_basis_only_def H_basis_def leaves_H_def dot_def)
  with F normalizes_h_basis_suffices [OF F] show ?thesis by simp
qed

text \<open>
  C2: the set of the 54 doubly stochastic matrices is closed under multiplication modulo
  3 and contains the identity; for each of its elements the order loop, capped at 20,
  returns the least positive n with M^n congruent to the identity, which is 1, 2, 3 or 6,
  and never the sentinel (\<open>None\<close>, respectively \<open>-1\<close>).
\<close>

theorem ops_54_group_and_orders:
  "length ops_54 = 54
   \<and> (\<forall>A \<in> set ops_54. \<forall>B \<in> set ops_54. matrix_mult_mod3 A B \<in> set ops_54)
   \<and> identity \<in> set ops_54
   \<and> (\<forall>M \<in> set ops_54. \<exists>n. n \<in> {1, 2, 3, 6} \<and> compute_order M = Some n
         \<and> compute_matrix_order M 20 = int n
         \<and> mat_mod3 (mat_power M n) = identity
         \<and> (\<forall>k. 0 < k \<and> k < n \<longrightarrow> mat_mod3 (mat_power M k) \<noteq> identity))"
  using ops_54_closed identity_in_ops_54 order_in_ops_54 ops_54_listed length_listed_54
  by simp

theorem ops_54_group_and_orders_witness:
  "((0, 0, 1), (1, 0, 0), (0, 1, 0)) \<in> set ops_54
   \<and> matrix_mult_mod3 ((0, 0, 1), (1, 0, 0), (0, 1, 0)) ((0, 0, 1), (1, 0, 0), (0, 1, 0))
        \<in> set ops_54
   \<and> (\<exists>n. n \<in> {1, 2, 3, 6} \<and> compute_order ((0, 0, 1), (1, 0, 0), (0, 1, 0)) = Some n)"
proof -
  have m: "((0, 0, 1), (1, 0, 0), (0, 1, 0)) \<in> set ops_54"
    by (simp add: mem_ops_54 in_F3_def field3_def invertible_def check_row_and_col_def)
  with ops_54_group_and_orders show ?thesis by blast
qed

section \<open>Properties of the closure computation\<close>

subsection \<open>What one pass over the snapshot does\<close>

lemma try_products_grows:
  assumes "try_products max_size ps (G, Q) = (G', Q')"
  shows "\<exists>N. G' = G @ N \<and> set N \<subseteq> set ps \<and> (distinct G \<longrightarrow> distinct G')"
  using assms
proof (induction ps arbitrary: G Q)
  case Nil
  then show ?case by simp
next
  case (Cons p ps)
  show ?case
  proof (cases "p \<in> set G")
    case True
    with Cons.prems have "try_products max_size ps (G, Q) = (G', Q')" by simp
    from Cons.IH [OF this] show ?thesis by auto
  next
    case False
    show ?thesis
    proof (cases "int (length (G @ [p])) \<ge> max_size")
      case True
      with False Cons.prems have "G' = G @ [p]" by auto
      with False show ?thesis by auto
    next
      case stay: False
      with False Cons.prems have "try_products max_size ps (G @ [p], Q @ [p]) = (G', Q')"
        by simp
      from Cons.IH [OF this] obtain N where
        N: "G' = (G @ [p]) @ N" "set N \<subseteq> set ps" "distinct (G @ [p]) \<longrightarrow> distinct G'"
        by blast
      from N(1) have "G' = G @ (p # N)" by simp
      moreover from N(2) have "set (p # N) \<subseteq> set (p # ps)" by auto
      moreover from N(3) False have "distinct G \<longrightarrow> distinct G'" by simp
      ultimately show ?thesis by blast
    qed
  qed
qed

lemma try_products_first:
  assumes "try_products max_size (p # ps) (G, Q) = (G', Q')"
  shows "p \<in> set G'"
proof (cases "p \<in> set G")
  case True
  with assms have "try_products max_size ps (G, Q) = (G', Q')" by simp
  from try_products_grows [OF this] True show ?thesis by auto
next
  case False
  show ?thesis
  proof (cases "int (length (G @ [p])) \<ge> max_size")
    case True
    with False assms show ?thesis by auto
  next
    case stay: False
    with False assms have "try_products max_size ps (G @ [p], Q @ [p]) = (G', Q')" by simp
    from try_products_grows [OF this] show ?thesis by auto
  qed
qed

lemma try_products_known:
  "set ps \<subseteq> set G \<Longrightarrow> try_products max_size ps (G, Q) = (G, Q)"
  by (induction ps) simp_all

lemma expand_Cons:
  "expand max_size current (e # es) GQ =
     expand max_size current es
       (try_products max_size [matrix_mult_mod3 current e, matrix_mult_mod3 e current] GQ)"
  by (simp add: expand_def)

lemma expand_Nil: "expand max_size current [] GQ = GQ"
  by (simp add: expand_def)

lemma expand_grows:
  assumes "expand max_size current snapshot (G, Q) = (G', Q')"
  shows "\<exists>N. G' = G @ N
     \<and> set N \<subseteq> (\<Union>e \<in> set snapshot. {matrix_mult_mod3 current e, matrix_mult_mod3 e current})
     \<and> (distinct G \<longrightarrow> distinct G')"
  using assms
proof (induction snapshot arbitrary: G Q)
  case Nil
  then show ?case by (simp add: expand_Nil)
next
  case (Cons e es)
  obtain G1 Q1 where step: "try_products max_size
      [matrix_mult_mod3 current e, matrix_mult_mod3 e current] (G, Q) = (G1, Q1)"
    by (cases "try_products max_size [matrix_mult_mod3 current e, matrix_mult_mod3 e current] (G, Q)")
  from try_products_grows [OF step] obtain N1 where
    N1: "G1 = G @ N1" "set N1 \<subseteq> {matrix_mult_mod3 current e, matrix_mult_mod3 e current}"
      "distinct G \<longrightarrow> distinct G1"
    by auto
  from Cons.prems step have "expand max_size current es (G1, Q1) = (G', Q')"
    by (simp add: expand_Cons)
  from Cons.IH [OF this] obtain N2 where
    N2: "G' = G1 @ N2"
      "set N2 \<subseteq> (\<Union>e \<in> set es. {matrix_mult_mod3 current e, matrix_mult_mod3 e current})"
      "distinct G1 \<longrightarrow> distinct G'"
    by blast
  have "G' = G @ (N1 @ N2)" using N1(1) N2(1) by simp
  moreover have "set (N1 @ N2)
      \<subseteq> (\<Union>e \<in> set (e # es). {matrix_mult_mod3 current e, matrix_mult_mod3 e current})"
    using N1(2) N2(2) by auto
  moreover have "distinct G \<longrightarrow> distinct G'" using N1(3) N2(3) by simp
  ultimately show ?case by blast
qed

lemma expand_left_products:
  assumes "expand max_size current snapshot (G, Q) = (G', Q')" and "e \<in> set snapshot"
  shows "matrix_mult_mod3 current e \<in> set G'"
  using assms
proof (induction snapshot arbitrary: G Q)
  case Nil
  then show ?case by simp
next
  case (Cons x xs)
  obtain G1 Q1 where step: "try_products max_size
      [matrix_mult_mod3 current x, matrix_mult_mod3 x current] (G, Q) = (G1, Q1)"
    by (cases "try_products max_size [matrix_mult_mod3 current x, matrix_mult_mod3 x current] (G, Q)")
  from Cons.prems(1) step have rest: "expand max_size current xs (G1, Q1) = (G', Q')"
    by (simp add: expand_Cons)
  show ?case
  proof (cases "e = x")
    case True
    from try_products_first [OF step] have "matrix_mult_mod3 current x \<in> set G1" .
    with expand_grows [OF rest] True show ?thesis by auto
  next
    case False
    with Cons.prems(2) have "e \<in> set xs" by simp
    from Cons.IH [OF rest this] show ?thesis .
  qed
qed

lemma expand_known:
  assumes "\<forall>e \<in> set snapshot. matrix_mult_mod3 current e \<in> set G \<and> matrix_mult_mod3 e current \<in> set G"
  shows "expand max_size current snapshot (G, Q) = (G, Q)"
  using assms by (induction snapshot) (simp_all add: expand_Nil expand_Cons try_products_known)

subsection \<open>An invariant rule for the loop\<close>

lemma closure_loop_rule:
  assumes "closure_loop ord max_size (G, Q, P) = (G', Q', P')"
    and "Inv G Q P"
    and "\<forall>G current rest P. Inv G (current # rest) P \<and> int (length G) < max_size
        \<and> current \<in> set P \<longrightarrow> Inv G rest P"
    and "\<forall>G current rest P G1 Q1. Inv G (current # rest) P \<and> int (length G) < max_size
        \<and> current \<notin> set P \<and> expand max_size current (ord G) (G, rest) = (G1, Q1)
        \<longrightarrow> Inv G1 Q1 (current # P)"
  shows "Inv G' Q' P' \<and> (Q' = [] \<or> max_size \<le> int (length G'))"
  using assms
proof (induction ord max_size "(G, Q, P)" arbitrary: G Q P rule: closure_loop.induct)
  case (1 ord max_size G Q P)
  note run = "1.prems"(1) and init = "1.prems"(2) and skip = "1.prems"(3) and step = "1.prems"(4)
  show ?case
  proof (cases Q)
    case Nil
    with run init show ?thesis by simp
  next
    case (Cons current rest)
    show ?thesis
    proof (cases "int (length G) < max_size")
      case False
      with Cons run init show ?thesis by simp
    next
      case small: True
      show ?thesis
      proof (cases "current \<in> set P")
        case True
        with Cons small run have r: "closure_loop ord max_size (G, rest, P) = (G', Q', P')"
          by simp
        from init Cons small True skip have i: "Inv G rest P"
          by blast
        show ?thesis
          by (rule "1.hyps"(1) [OF Cons small True r i skip step])
      next
        case False
        obtain G1 Q1 where e: "expand max_size current (ord G) (G, rest) = (G1, Q1)"
          by (cases "expand max_size current (ord G) (G, rest)")
        with Cons small False run
        have r: "closure_loop ord max_size (G1, Q1, current # P) = (G', Q', P')" by simp
        from init Cons small False e step have i: "Inv G1 Q1 (current # P)"
          by blast
        show ?thesis
          by (rule "1.hyps"(2) [OF Cons small False e [symmetric] r i skip step])
      qed
    qed
  qed
qed

subsection \<open>Consequences for \<open>generate_group\<close>\<close>

lemma closure_loop_grows:
  assumes "closure_loop ord max_size (G, Q, P) = (G', Q', P')"
  shows "(\<exists>N. G' = G @ N) \<and> (distinct G \<longrightarrow> distinct G')"
proof -
  let ?Inv = "\<lambda>G1 (Q1::matrix list) (P1::matrix list). (\<exists>N. G1 = G @ N) \<and> (distinct G \<longrightarrow> distinct G1)"
  have "?Inv G' Q' P' \<and> (Q' = [] \<or> max_size \<le> int (length G'))"
  proof (rule closure_loop_rule [OF assms, where Inv = ?Inv], goal_cases)
    case 1
    show ?case by simp
  next
    case 2
    show ?case by simp
  next
    case 3
    show ?case
    proof (intro allI impI, elim conjE exE)
      fix G0 current rest P0 G1 Q1 N
      assume e: "expand max_size current (ord G0) (G0, rest) = (G1, Q1)"
        and G0: "G0 = G @ N" and d: "distinct G \<longrightarrow> distinct G0"
      from expand_grows [OF e] obtain N1 where "G1 = G0 @ N1" "distinct G0 \<longrightarrow> distinct G1"
        by blast
      with G0 d show "(\<exists>N. G1 = G @ N) \<and> (distinct G \<longrightarrow> distinct G1)" by auto
    qed
  qed
  then show ?thesis by blast
qed

lemma closure_loop_closed:
  assumes run: "closure_loop ord max_size (G, Q, P) = (G', Q', P')"
    and ord: "set (ord G) \<subseteq> set G"
    and Q: "set Q \<subseteq> set G"
    and closed: "\<forall>a \<in> set G. \<forall>b \<in> set G. matrix_mult_mod3 a b \<in> set G"
  shows "G' = G"
proof -
  let ?Inv = "\<lambda>G1 (Q1::matrix list) (P1::matrix list). G1 = G \<and> set Q1 \<subseteq> set G"
  have "?Inv G' Q' P' \<and> (Q' = [] \<or> max_size \<le> int (length G'))"
  proof (rule closure_loop_rule [OF run, where Inv = ?Inv], goal_cases)
    case 1
    from Q show ?case by simp
  next
    case 2
    show ?case by auto
  next
    case 3
    show ?case
    proof (intro allI impI, elim conjE)
      fix G0 current rest P0 G1 Q1
      assume e: "expand max_size current (ord G0) (G0, rest) = (G1, Q1)"
        and G0: "G0 = G" and q: "set (current # rest) \<subseteq> set G"
      have "\<forall>x \<in> set (ord G). matrix_mult_mod3 current x \<in> set G
          \<and> matrix_mult_mod3 x current \<in> set G"
        using ord q closed by auto
      from expand_known [OF this] e G0 have "G1 = G" "Q1 = rest" by simp_all
      with q show "G1 = G \<and> set Q1 \<subseteq> set G" by simp
    qed
  qed
  then show ?thesis by blast
qed

lemma closure_loop_stops:
  "\<not> int (length G) < max_size \<Longrightarrow> closure_loop ord max_size (G, Q, P) = (G, Q, P)"
  by (cases Q) simp_all

lemma fold_set_add:
  "set (fold set_add xs G) = set G \<union> set xs \<and> (distinct G \<longrightarrow> distinct (fold set_add xs G))"
  by (induction xs arbitrary: G) (auto simp: set_add_def)

lemma fold_set_add_fresh:
  "distinct xs \<Longrightarrow> set xs \<inter> set G = {} \<Longrightarrow> fold set_add xs G = G @ xs"
  by (induction xs arbitrary: G) (auto simp: set_add_def)

lemma set_initial_group: "set (initial_group gens) = insert identity (set gens)"
  using fold_set_add [of "identity # gens" "[]"] by (simp add: initial_group_def)

lemma distinct_initial_group: "distinct (initial_group gens)"
  using fold_set_add [of "identity # gens" "[]"] by (simp add: initial_group_def)

lemma initial_group_fresh:
  "distinct gens \<Longrightarrow> identity \<notin> set gens \<Longrightarrow> initial_group gens = identity # gens"
  using fold_set_add_fresh [of "identity # gens" "[]"] by (simp add: initial_group_def)

lemma generate_group_run:
  "\<exists>Q' P'. closure_loop ord max_size (initial_group gens, gens, [])
      = (generate_group ord gens max_size, Q', P')"
  unfolding generate_group_def
  by (cases "closure_loop ord max_size (initial_group gens, gens, [])") simp

lemma distinct_generate_group: "distinct (generate_group ord gens max_size)"
proof -
  obtain Q' P' where "closure_loop ord max_size (initial_group gens, gens, [])
      = (generate_group ord gens max_size, Q', P')"
    using generate_group_run by blast
  from closure_loop_grows [OF this] distinct_initial_group show ?thesis by blast
qed

lemma generate_group_contains_seeds:
  "insert identity (set gens) \<subseteq> set (generate_group ord gens max_size)"
proof -
  obtain Q' P' where "closure_loop ord max_size (initial_group gens, gens, [])
      = (generate_group ord gens max_size, Q', P')"
    using generate_group_run by blast
  from closure_loop_grows [OF this] set_initial_group [of gens] show ?thesis by auto
qed

lemma generate_group_closed_seed:
  assumes "valid_order ord" and "identity \<in> set gens"
    and "\<forall>a \<in> set gens. \<forall>b \<in> set gens. matrix_mult_mod3 a b \<in> set gens"
  shows "set (generate_group ord gens max_size) = set gens"
proof -
  obtain Q' P' where run: "closure_loop ord max_size (initial_group gens, gens, [])
      = (generate_group ord gens max_size, Q', P')"
    using generate_group_run by blast
  have s: "set (initial_group gens) = set gens"
    using assms(2) by (auto simp: set_initial_group)
  have "generate_group ord gens max_size = initial_group gens"
    using assms by (intro closure_loop_closed [OF run]) (simp_all add: s valid_order_def)
  with s show ?thesis by simp
qed

lemma queue_empty_below_cap:
  assumes "int (length (generate_group ord gens max_size)) < max_size"
  shows "to_process_left ord gens max_size = []"
proof -
  obtain G' Q' P' where run: "closure_loop ord max_size (initial_group gens, gens, []) = (G', Q', P')"
    by (cases "closure_loop ord max_size (initial_group gens, gens, [])")
  have "True \<and> (Q' = [] \<or> max_size \<le> int (length G'))"
    by (rule closure_loop_rule [OF run, where Inv = "\<lambda>_ _ _. True"]) simp_all
  with assms run show ?thesis
    by (simp add: generate_group_def to_process_left_def)
qed

lemma first_step_adds_two:
  assumes run: "closure_loop ord max_size (G, current # rest, []) = (G', Q', P')"
    and ord: "valid_order ord"
    and d: "distinct G"
    and small: "int (length G) < max_size"
    and x: "x \<in> set G" and y: "y \<in> set G"
    and new: "matrix_mult_mod3 current x \<notin> set G" "matrix_mult_mod3 current y \<notin> set G"
      "matrix_mult_mod3 current x \<noteq> matrix_mult_mod3 current y"
  shows "length G + 2 \<le> length G'"
proof -
  obtain G1 Q1 where e: "expand max_size current (ord G) (G, rest) = (G1, Q1)"
    by (cases "expand max_size current (ord G) (G, rest)")
  from ord x y have "x \<in> set (ord G)" "y \<in> set (ord G)" by (simp_all add: valid_order_def)
  then have in1: "matrix_mult_mod3 current x \<in> set G1" "matrix_mult_mod3 current y \<in> set G1"
    using expand_left_products [OF e] by blast+
  from expand_grows [OF e] d obtain N where N: "G1 = G @ N" "distinct G1" by blast
  from N(1) in1 new have "{matrix_mult_mod3 current x, matrix_mult_mod3 current y} \<subseteq> set N"
    by auto
  moreover from N have "distinct N" by simp
  ultimately have "card {matrix_mult_mod3 current x, matrix_mult_mod3 current y} \<le> length N"
    by (metis card_mono distinct_card finite_set)
  with new(3) have "2 \<le> length N" by simp
  with N(1) have len1: "length G + 2 \<le> length G1" by simp
  from run small e have "closure_loop ord max_size (G1, Q1, [current]) = (G', Q', P')" by simp
  from closure_loop_grows [OF this] obtain N' where "G' = G1 @ N'" by blast
  with len1 show ?thesis by simp
qed

lemma generate_group_pair_cap_4:
  assumes "valid_order ord"
  shows "5 \<le> length (generate_group ord [op_a, op_b] 4)"
proof -
  obtain Q' P' where run: "closure_loop ord 4 (initial_group [op_a, op_b], [op_a, op_b], [])
      = (generate_group ord [op_a, op_b] 4, Q', P')"
    using generate_group_run by blast
  have G: "initial_group [op_a, op_b] = [identity, op_a, op_b]"
    by (rule initial_group_fresh) (simp_all add: op_a_def op_b_def identity_def)
  have "length [identity, op_a, op_b] + 2 \<le> length (generate_group ord [op_a, op_b] 4)"
    by (rule first_step_adds_two [OF run [unfolded G] assms, of op_a op_b])
       (simp_all add: op_a_def op_b_def identity_def matrix_mult_mod3_def dot_def)
  then show ?thesis by simp
qed

lemma generate_group_pair_cap_4_insertion_order:
  "length (generate_group (\<lambda>G. G) [op_a, op_b] 4) = 5"
  by code_simp

lemma distinct_ops_54: "distinct ops_54"
  unfolding ops_54_def generate_gl3_f3_def
  by (intro distinct_filter distinct_raw_matrices)

lemma generate_group_ops_54:
  assumes "valid_order ord" and "set seeds = set ops_54"
  shows "set (generate_group ord seeds cap) = set ops_54 \<and> length (generate_group ord seeds cap) = 54"
proof -
  have "set (generate_group ord seeds cap) = set seeds"
    using assms identity_in_ops_54 ops_54_closed
    by (intro generate_group_closed_seed) simp_all
  with assms(2) have s: "set (generate_group ord seeds cap) = set ops_54" by simp
  have "length (generate_group ord seeds cap) = card (set (generate_group ord seeds cap))"
    using distinct_generate_group by (simp add: distinct_card)
  also have "\<dots> = length ops_54"
    using s distinct_ops_54 by (simp add: distinct_card)
  finally show ?thesis
    using s ops_54_listed length_listed_54 by simp
qed

lemma same_result_different_endings:
  "set (generate_group (\<lambda>G. G) [cycle3] 3) = set (generate_group (\<lambda>G. G) [cycle3, cycle3_sq] 3)
   \<and> to_process_left (\<lambda>G. G) [cycle3] 3 = []
   \<and> to_process_left (\<lambda>G. G) [cycle3, cycle3_sq] 3 \<noteq> []"
  by code_simp

subsection \<open>Below the cap the closure is complete\<close>

lemma try_products_no_break:
  assumes "try_products max_size ps (G, Q) = (G', Q')" and "int (length G') < max_size"
  shows "\<exists>N. G' = G @ N \<and> Q' = Q @ N \<and> set ps \<subseteq> set G'"
  using assms
proof (induction ps arbitrary: G Q)
  case Nil
  then show ?case by simp
next
  case (Cons p ps)
  show ?case
  proof (cases "p \<in> set G")
    case True
    with Cons.prems have "try_products max_size ps (G, Q) = (G', Q')" by simp
    from Cons.IH [OF this Cons.prems(2)] True show ?thesis by auto
  next
    case False
    show ?thesis
    proof (cases "int (length (G @ [p])) \<ge> max_size")
      case True
      with False Cons.prems show ?thesis by auto
    next
      case stay: False
      with False Cons.prems have "try_products max_size ps (G @ [p], Q @ [p]) = (G', Q')"
        by simp
      from Cons.IH [OF this Cons.prems(2)] obtain N where
        "G' = (G @ [p]) @ N" "Q' = (Q @ [p]) @ N" "set ps \<subseteq> set G'" by blast
      then have "G' = G @ (p # N) \<and> Q' = Q @ (p # N) \<and> set (p # ps) \<subseteq> set G'" by auto
      then show ?thesis by blast
    qed
  qed
qed

lemma expand_no_break:
  assumes "expand max_size current snapshot (G, Q) = (G', Q')" and "int (length G') < max_size"
  shows "\<exists>N. G' = G @ N \<and> Q' = Q @ N
     \<and> (\<forall>e \<in> set snapshot. matrix_mult_mod3 current e \<in> set G' \<and> matrix_mult_mod3 e current \<in> set G')"
  using assms
proof (induction snapshot arbitrary: G Q)
  case Nil
  then show ?case by (simp add: expand_Nil)
next
  case (Cons e es)
  obtain G1 Q1 where step: "try_products max_size
      [matrix_mult_mod3 current e, matrix_mult_mod3 e current] (G, Q) = (G1, Q1)"
    by (cases "try_products max_size [matrix_mult_mod3 current e, matrix_mult_mod3 e current] (G, Q)")
  from Cons.prems(1) step have rest: "expand max_size current es (G1, Q1) = (G', Q')"
    by (simp add: expand_Cons)
  from Cons.IH [OF rest Cons.prems(2)] obtain N2 where
    N2: "G' = G1 @ N2" "Q' = Q1 @ N2"
      "\<forall>e \<in> set es. matrix_mult_mod3 current e \<in> set G' \<and> matrix_mult_mod3 e current \<in> set G'"
    by blast
  from N2(1) Cons.prems(2) have "int (length G1) < max_size" by simp
  from try_products_no_break [OF step this] obtain N1 where
    N1: "G1 = G @ N1" "Q1 = Q @ N1"
      "set [matrix_mult_mod3 current e, matrix_mult_mod3 e current] \<subseteq> set G1"
    by blast
  have "G' = G @ (N1 @ N2) \<and> Q' = Q @ (N1 @ N2)" using N1 N2 by simp
  moreover have "\<forall>x \<in> set (e # es).
      matrix_mult_mod3 current x \<in> set G' \<and> matrix_mult_mod3 x current \<in> set G'"
    using N1(3) N2(1,3) by auto
  ultimately show ?case by blast
qed

lemma explored_skip:
  assumes "explored G (current # rest) P" and "current \<in> set P"
  shows "explored G rest P"
  using assms unfolding explored_def by auto

lemma explored_step:
  assumes J: "explored G (current # rest) P"
    and ord: "valid_order ord"
    and new: "current \<notin> set P"
    and e: "expand max_size current (ord G) (G, rest) = (G1, Q1)"
    and small: "int (length G1) < max_size"
  shows "explored G1 Q1 (current # P)"
proof -
  from expand_no_break [OF e small] ord obtain N where
    N: "G1 = G @ N" "Q1 = rest @ N"
      "\<forall>y \<in> set G. matrix_mult_mod3 current y \<in> set G1 \<and> matrix_mult_mod3 y current \<in> set G1"
    by (auto simp: valid_order_def)
  from expand_grows [OF e] J have d1: "distinct G1" by (auto simp: explored_def)
  with N(1) have fresh: "set N \<inter> set G = {}" by auto
  from J have cur: "current \<in> set G" and PG: "set P \<subseteq> set G" and restG: "set rest \<subseteq> set G"
    and idG: "identity \<in> set G"
    and cover: "set G \<subseteq> insert identity (set P \<union> set (current # rest))"
    and old: "\<forall>x \<in> set P. \<forall>y \<in> set G. (y \<in> set (current # rest) \<and> y \<notin> set P)
        \<or> (matrix_mult_mod3 x y \<in> set G \<and> matrix_mult_mod3 y x \<in> set G)"
    by (auto simp: explored_def)
  have pairs: "(y \<in> set Q1 \<and> y \<notin> set (current # P))
      \<or> (matrix_mult_mod3 x y \<in> set G1 \<and> matrix_mult_mod3 y x \<in> set G1)"
    if x: "x \<in> set (current # P)" and y: "y \<in> set G1" for x y
  proof (cases "y \<in> set N")
    case True
    with fresh cur PG N(2) show ?thesis by auto
  next
    case False
    with y N(1) have yG: "y \<in> set G" by simp
    show ?thesis
    proof (cases "x = current")
      case True
      with N(3) yG show ?thesis by simp
    next
      case False
      with x have xP: "x \<in> set P" by simp
      with PG have xG: "x \<in> set G" by blast
      show ?thesis
      proof (cases "y = current")
        case True
        with N(3) xG show ?thesis by simp
      next
        case ny: False
        from old xP yG have "(y \<in> set (current # rest) \<and> y \<notin> set P)
            \<or> (matrix_mult_mod3 x y \<in> set G \<and> matrix_mult_mod3 y x \<in> set G)" by blast
        with ny N(1,2) show ?thesis by auto
      qed
    qed
  qed
  show ?thesis
    unfolding explored_def
    using d1 idG cur PG restG cover N(1,2) pairs by auto
qed

lemma explored_done:
  assumes "explored G [] P"
  shows "\<forall>a \<in> set G. \<forall>b \<in> set G. matrix_mult_mod3 a b \<in> set G"
proof (intro ballI)
  fix a b assume a: "a \<in> set G" and b: "b \<in> set G"
  from assms have cover: "set G \<subseteq> insert identity (set P)"
    and idG: "identity \<in> set G"
    and prods: "\<forall>x \<in> set P. \<forall>y \<in> set G.
        matrix_mult_mod3 x y \<in> set G \<and> matrix_mult_mod3 y x \<in> set G"
    by (auto simp: explored_def)
  have ii: "matrix_mult_mod3 identity identity = identity"
    by (simp add: matrix_mult_mod3_def identity_def dot_def)
  show "matrix_mult_mod3 a b \<in> set G"
  proof (cases "a \<in> set P")
    case True
    with prods b show ?thesis by blast
  next
    case False
    with a cover have a_id: "a = identity" by blast
    show ?thesis
    proof (cases "b \<in> set P")
      case True
      with prods idG a_id show ?thesis by blast
    next
      case False
      with b cover have "b = identity" by blast
      with a_id ii idG show ?thesis by simp
    qed
  qed
qed

lemma generate_group_complete_below_cap:
  assumes ord: "valid_order ord"
    and small: "int (length (generate_group ord gens max_size)) < max_size"
  shows "\<forall>a \<in> set (generate_group ord gens max_size). \<forall>b \<in> set (generate_group ord gens max_size).
          matrix_mult_mod3 a b \<in> set (generate_group ord gens max_size)"
proof -
  obtain G' Q' P' where run: "closure_loop ord max_size (initial_group gens, gens, []) = (G', Q', P')"
    by (cases "closure_loop ord max_size (initial_group gens, gens, [])")
  then have G': "generate_group ord gens max_size = G'" by (simp add: generate_group_def)
  let ?Inv = "\<lambda>G Q P. \<forall>N. G' = G @ N \<longrightarrow> explored G Q P"
  have "?Inv G' Q' P' \<and> (Q' = [] \<or> max_size \<le> int (length G'))"
  proof (rule closure_loop_rule [OF run, where Inv = ?Inv], goal_cases)
    case 1
    show ?case
      using distinct_initial_group [of gens] set_initial_group [of gens]
      by (auto simp: explored_def)
  next
    case 2
    show ?case using explored_skip by blast
  next
    case 3
    show ?case
    proof (intro allI impI, elim conjE)
      fix G current rest P G1 Q1 N
      assume inv: "\<forall>N. G' = G @ N \<longrightarrow> explored G (current # rest) P"
        and new: "current \<notin> set P"
        and e: "expand max_size current (ord G) (G, rest) = (G1, Q1)"
        and G1: "G' = G1 @ N"
      from expand_grows [OF e] obtain N1 where "G1 = G @ N1" by blast
      with G1 inv have J: "explored G (current # rest) P" by simp
      from G1 small G' have "int (length G1) < max_size" by simp
      from explored_step [OF J ord new e this] show "explored G1 Q1 (current # P)" .
    qed
  qed
  with small G' have "explored G' [] P'" by auto
  from explored_done [OF this] G' show ?thesis by simp
qed

subsection \<open>The closure of a pair passes the cap as well\<close>

lemma generate_group_from_pair_cap_4:
  "length (generate_group_from_pair (\<lambda>G. G) op_a op_b 4) = 6"
  by code_simp

section \<open>Results on the closure computation\<close>

text \<open>
  C3: for seed matrices over F3 and a cap of at least the number of distinct seeds plus
  one, the closure computation is claimed to stop as soon as the group reaches the cap
  and so to return at most cap elements. With the two seeds \<open>op_a\<close>, \<open>op_b\<close> and cap 4,
  which is more than the 3 elements the group starts with, \<open>generate_group\<close> returns at
  least 5 elements, whatever the iteration order of the set: the \<open>break\<close> leaves the loop
  over the two products only, and the loop over the snapshot goes on inserting.
\<close>

theorem generate_group_exceeds_cap:
  "valid_order ord \<Longrightarrow> in_F3 op_a \<and> in_F3 op_b \<and> 4 < int (length (generate_group ord [op_a, op_b] 4))"
  using generate_group_pair_cap_4 [of ord]
  by (simp add: op_a_def op_b_def in_F3_def field3_def)

theorem generate_group_exceeds_cap_witness:
  "valid_order (\<lambda>G. G) \<and> 4 < int (length (generate_group (\<lambda>G. G) [op_a, op_b] 4))"
proof -
  have v: "valid_order (\<lambda>G. G)" by (simp add: valid_order_def)
  from generate_group_exceeds_cap [OF v] v show ?thesis by simp
qed

text \<open>
  C4, as claimed: the result of the closure computation records whether expansion ended
  at the cap with work left or with an empty queue. \<open>generate_group\<close> returns the set
  alone: with cap 3, the seed \<open>cycle3\<close> ends with an empty queue and the seeds \<open>cycle3\<close>,
  \<open>cycle3_sq\<close> end at the cap with both still queued, and the two runs return the same set.
\<close>

theorem closure_result_has_no_flag:
  "set (generate_group (\<lambda>G. G) [cycle3] 3) = set (generate_group (\<lambda>G. G) [cycle3, cycle3_sq] 3)
   \<and> to_process_left (\<lambda>G. G) [cycle3] 3 = []
   \<and> to_process_left (\<lambda>G. G) [cycle3, cycle3_sq] 3 \<noteq> []"
  by (rule same_result_different_endings)

text \<open>
  C4, amended: the returned set carries no flag. What it determines is this: when it has
  fewer than \<open>max_size\<close> elements, the queue was exhausted, and the set, which contains the
  identity and the seeds, is closed under multiplication modulo 3.
\<close>

theorem generate_group_below_cap_complete:
  assumes "valid_order ord"
    and "int (length (generate_group ord gens max_size)) < max_size"
  shows "to_process_left ord gens max_size = []
     \<and> insert identity (set gens) \<subseteq> set (generate_group ord gens max_size)
     \<and> (\<forall>a \<in> set (generate_group ord gens max_size).
          \<forall>b \<in> set (generate_group ord gens max_size).
            matrix_mult_mod3 a b \<in> set (generate_group ord gens max_size))"
  using queue_empty_below_cap [OF assms(2)] generate_group_contains_seeds [of gens ord max_size]
    generate_group_complete_below_cap [OF assms]
  by blast

theorem generate_group_below_cap_complete_witness:
  "valid_order (\<lambda>G. G) \<and> int (length (generate_group (\<lambda>G. G) [cycle3] 10)) < 10
   \<and> to_process_left (\<lambda>G. G) [cycle3] 10 = []
   \<and> matrix_mult_mod3 cycle3 cycle3 \<in> set (generate_group (\<lambda>G. G) [cycle3] 10)"
proof -
  have v: "valid_order (\<lambda>G. G)" by (simp add: valid_order_def)
  have l: "int (length (generate_group (\<lambda>G. G) [cycle3] 10)) < 10" by code_simp
  from generate_group_below_cap_complete [OF v l] v l show ?thesis by auto
qed

text \<open>
  C9: with the full set of the 54 doubly stochastic matrices as seed (in any order, with
  or without repetitions) and any cap of at least 54, \<open>generate_group\<close> returns exactly
  that set, 54 elements.
\<close>

theorem closure_of_ops_54_unchanged:
  assumes "valid_order ord" and "54 \<le> cap" and "set seeds = set ops_54"
  shows "set (generate_group ord seeds cap) = set ops_54
     \<and> length (generate_group ord seeds cap) = 54"
  using generate_group_ops_54 [OF assms(1,3)] by simp

theorem closure_of_ops_54_unchanged_witness:
  "valid_order (\<lambda>G. G) \<and> set (generate_group (\<lambda>G. G) ops_54 54) = set ops_54
   \<and> length (generate_group (\<lambda>G. G) ops_54 54) = 54"
proof -
  have v: "valid_order (\<lambda>G. G)" by (simp add: valid_order_def)
  from closure_of_ops_54_unchanged [OF v, of 54 ops_54] v show ?thesis by simp
qed

section \<open>Properties of the minimality check\<close>

lemma those_eq_Some_map:
  "(\<forall>x \<in> set xs. g x = Some (f x)) \<Longrightarrow> those (map g xs) = Some (map f xs)"
  by (induction xs) simp_all

lemma those_eq_Some_length: "those xs = Some ys \<Longrightarrow> length ys = length xs"
  by (induction xs arbitrary: ys) (auto split: option.splits)

lemma those_eq_Some_nth:
  "those xs = Some ys \<Longrightarrow> i < length xs \<Longrightarrow> xs ! i = Some (ys ! i)"
proof (induction xs arbitrary: ys i)
  case Nil
  then show ?case by simp
next
  case (Cons x xs)
  then show ?case by (cases i) (auto split: option.splits)
qed

lemma those_append:
  "those (xs @ ys) = (case those xs of None \<Rightarrow> None
      | Some as \<Rightarrow> (case those ys of None \<Rightarrow> None | Some bs \<Rightarrow> Some (as @ bs)))"
  by (induction xs) (auto split: option.splits)

lemma those_take: "those xs = Some ys \<Longrightarrow> those (take n xs) = Some (take n ys)"
proof (induction xs arbitrary: ys n)
  case Nil
  then show ?case by simp
next
  case (Cons x xs)
  then show ?case by (cases n) (auto split: option.splits)
qed

lemma those_drop: "those xs = Some ys \<Longrightarrow> those (drop n xs) = Some (drop n ys)"
proof (induction xs arbitrary: ys n)
  case Nil
  then show ?case by simp
next
  case (Cons x xs)
  then show ?case by (cases n) (auto split: option.splits)
qed

lemma select_ops_reduced:
  assumes "select_ops operators t = Some full"
  shows "select_ops operators (take i t @ drop (Suc i) t) = Some (take i full @ drop (Suc i) full)"
  using assms those_take [of "map (py_index operators) t" full i]
    those_drop [of "map (py_index operators) t" full "Suc i"]
  by (simp add: select_ops_def those_append take_map drop_map)

lemma reduced_check_eq:
  assumes "select_ops operators t = Some full"
  shows "reduced_check ord operators t is
     = Some (\<forall>i \<in> set is. length (generate_group ord (take i full @ drop (Suc i) full) 432) \<noteq> 432)"
  by (induction "is") (simp_all add: select_ops_reduced [OF assms])

lemma verify_minimality_eq:
  assumes "select_ops operators t = Some full" and "length t \<noteq> 1"
  shows "verify_minimality ord operators t
     = Some (length (generate_group ord full 432) = 432
        \<and> (\<forall>i < length t. length (generate_group ord (take i full @ drop (Suc i) full) 432) \<noteq> 432))"
  using assms by (auto simp: verify_minimality_def reduced_check_eq [OF assms(1)])

subsection \<open>Closures that stay inside a closed set\<close>

lemma try_products_queue:
  assumes "try_products max_size ps (G, Q) = (G', Q')"
  shows "\<exists>M. Q' = Q @ M \<and> set M \<subseteq> set G'"
  using assms
proof (induction ps arbitrary: G Q)
  case Nil
  then show ?case by simp
next
  case (Cons p ps)
  show ?case
  proof (cases "p \<in> set G")
    case True
    with Cons.prems have "try_products max_size ps (G, Q) = (G', Q')" by simp
    from Cons.IH [OF this] show ?thesis .
  next
    case False
    show ?thesis
    proof (cases "int (length (G @ [p])) \<ge> max_size")
      case True
      with False Cons.prems show ?thesis by auto
    next
      case stay: False
      with False Cons.prems have r: "try_products max_size ps (G @ [p], Q @ [p]) = (G', Q')"
        by simp
      from Cons.IH [OF r] obtain M where M: "Q' = (Q @ [p]) @ M" "set M \<subseteq> set G'" by blast
      from try_products_grows [OF r] have "p \<in> set G'" by auto
      with M have "Q' = Q @ (p # M) \<and> set (p # M) \<subseteq> set G'" by simp
      then show ?thesis by blast
    qed
  qed
qed

lemma expand_queue:
  assumes "expand max_size current snapshot (G, Q) = (G', Q')"
  shows "\<exists>M. Q' = Q @ M \<and> set M \<subseteq> set G'"
  using assms
proof (induction snapshot arbitrary: G Q)
  case Nil
  then show ?case by (simp add: expand_Nil)
next
  case (Cons e es)
  obtain G1 Q1 where step: "try_products max_size
      [matrix_mult_mod3 current e, matrix_mult_mod3 e current] (G, Q) = (G1, Q1)"
    by (cases "try_products max_size [matrix_mult_mod3 current e, matrix_mult_mod3 e current] (G, Q)")
  from Cons.prems step have rest: "expand max_size current es (G1, Q1) = (G', Q')"
    by (simp add: expand_Cons)
  from try_products_queue [OF step] obtain M1 where M1: "Q1 = Q @ M1" "set M1 \<subseteq> set G1" by blast
  from Cons.IH [OF rest] obtain M2 where M2: "Q' = Q1 @ M2" "set M2 \<subseteq> set G'" by blast
  from expand_grows [OF rest] have "set G1 \<subseteq> set G'" by auto
  with M1 M2 have "Q' = Q @ (M1 @ M2) \<and> set (M1 @ M2) \<subseteq> set G'" by auto
  then show ?case by blast
qed

lemma closure_loop_inside:
  assumes run: "closure_loop ord max_size (G, Q, P) = (G', Q', P')"
    and ord: "valid_order ord"
    and G: "set G \<subseteq> S" and Q: "set Q \<subseteq> S"
    and closed: "\<forall>a \<in> S. \<forall>b \<in> S. matrix_mult_mod3 a b \<in> S"
  shows "set G' \<subseteq> S"
proof -
  let ?Inv = "\<lambda>G1 Q1 (P1::matrix list). set G1 \<subseteq> S \<and> set Q1 \<subseteq> S"
  have "?Inv G' Q' P' \<and> (Q' = [] \<or> max_size \<le> int (length G'))"
  proof (rule closure_loop_rule [OF run, where Inv = ?Inv], goal_cases)
    case 1
    from G Q show ?case by simp
  next
    case 2
    show ?case by auto
  next
    case 3
    show ?case
    proof (intro allI impI, elim conjE)
      fix G0 current rest P0 G1 Q1
      assume e: "expand max_size current (ord G0) (G0, rest) = (G1, Q1)"
        and G0: "set G0 \<subseteq> S" and q: "set (current # rest) \<subseteq> S"
      from expand_grows [OF e] obtain N where N: "G1 = G0 @ N"
        "set N \<subseteq> (\<Union>x \<in> set (ord G0). {matrix_mult_mod3 current x, matrix_mult_mod3 x current})"
        by blast
      have "(\<Union>x \<in> set (ord G0). {matrix_mult_mod3 current x, matrix_mult_mod3 x current}) \<subseteq> S"
        using ord G0 q closed by (auto simp: valid_order_def)
      with N G0 have G1: "set G1 \<subseteq> S" by auto
      from expand_queue [OF e] obtain M where "Q1 = rest @ M" "set M \<subseteq> set G1" by blast
      with G1 q show "set G1 \<subseteq> S \<and> set Q1 \<subseteq> S" by auto
    qed
  qed
  then show ?thesis by blast
qed

lemma generate_group_inside:
  assumes "valid_order ord" and "identity \<in> S" and "set gens \<subseteq> S"
    and "\<forall>a \<in> S. \<forall>b \<in> S. matrix_mult_mod3 a b \<in> S"
  shows "set (generate_group ord gens max_size) \<subseteq> S"
proof -
  obtain Q' P' where run: "closure_loop ord max_size (initial_group gens, gens, [])
      = (generate_group ord gens max_size, Q', P')"
    using generate_group_run by blast
  show ?thesis
    using assms by (intro closure_loop_inside [OF run]) (simp_all add: set_initial_group)
qed

lemma mem_conservation_ops:
  "M \<in> set conservation_ops \<longleftrightarrow> in_F3 M \<and> invertible M \<and> check_conservation M"
  by (auto simp: conservation_ops_def mem_generate_gl3_f3)

lemma generate_group_conservation_bound:
  assumes "valid_order ord" and "set gens \<subseteq> set conservation_ops"
  shows "length (generate_group ord gens max_size) \<le> 432"
proof -
  have "identity \<in> set conservation_ops"
    by (simp add: mem_conservation_ops identity_def in_F3_def field3_def invertible_def
        check_conservation_def)
  moreover have "\<forall>a \<in> set conservation_ops. \<forall>b \<in> set conservation_ops.
      matrix_mult_mod3 a b \<in> set conservation_ops"
    by (simp add: mem_conservation_ops in_F3_mult invertible_mult conservation_mult)
  ultimately have "set (generate_group ord gens max_size) \<subseteq> set conservation_ops"
    using assms by (intro generate_group_inside) simp_all
  then have "card (set (generate_group ord gens max_size)) \<le> card (set conservation_ops)"
    by (intro card_mono) simp_all
  also have "\<dots> \<le> length conservation_ops" by (rule card_length)
  finally show ?thesis
    using distinct_generate_group [of ord gens max_size] length_conservation
    by (simp add: distinct_card conservation_ops_def)
qed

lemma verify_minimality_conservation_pool:
  assumes ord: "valid_order ord"
    and pool: "set operators \<subseteq> set conservation_ops"
    and sel: "select_ops operators t = Some full"
    and k: "length t \<noteq> 1"
  shows "verify_minimality ord operators t
     = Some (length (generate_group ord full 432) = 432
        \<and> (\<forall>i < length t. length (generate_group ord (take i full @ drop (Suc i) full) 432) < 432))"
proof -
  have full: "set full \<subseteq> set operators"
  proof
    fix M assume "M \<in> set full"
    then obtain j where j: "j < length full" "M = full ! j" by (auto simp: in_set_conv_nth)
    from sel have len: "length full = length t"
      using those_eq_Some_length [of "map (py_index operators) t" full] by (simp add: select_ops_def)
    from sel j len have "py_index operators (t ! j) = Some M"
      using those_eq_Some_nth [of "map (py_index operators) t" full j] by (simp add: select_ops_def)
    then show "M \<in> set operators"
      by (auto simp: py_index_def split: if_splits)
  qed
  have "length (generate_group ord (take i full @ drop (Suc i) full) 432) \<le> 432" for i
  proof (rule generate_group_conservation_bound [OF ord])
    show "set (take i full @ drop (Suc i) full) \<subseteq> set conservation_ops"
      using full pool set_take_subset [of i full] set_drop_subset [of "Suc i" full] by auto
  qed
  then have "(length (generate_group ord (take i full @ drop (Suc i) full) 432) \<noteq> 432)
      = (length (generate_group ord (take i full @ drop (Suc i) full) 432) < 432)" for i
    using le_neq_implies_less [of "length (generate_group ord (take i full @ drop (Suc i) full) 432)" 432]
    by auto
  then show ?thesis
    by (simp add: verify_minimality_eq [OF sel k])
qed

subsection \<open>A pool whose reduced closures pass the cap\<close>

lemma corner_times_identity: "matrix_mult_mod3 (corner a) identity = corner (a mod 3)"
  by (simp add: corner_def identity_def matrix_mult_mod3_def dot_def)

lemma corner_times_corner: "matrix_mult_mod3 (corner a) (corner b) = corner ((a * b) mod 3)"
  by (simp add: corner_def matrix_mult_mod3_def dot_def)

lemma corner_inj: "corner a = corner b \<longleftrightarrow> a = b"
  by (simp add: corner_def)

lemma corner_not_identity: "corner a \<noteq> identity"
  by (simp add: corner_def identity_def)

lemma in_pool_431: "M \<in> set pool_431 \<Longrightarrow> \<exists>a. M = corner a \<and> a mod 3 = 2 \<and> 5 \<le> a"
  unfolding pool_431_def by auto

lemma length_pool_431: "length pool_431 = 431"
  by (simp add: pool_431_def)

lemma distinct_pool_431: "distinct pool_431"
  unfolding pool_431_def by (simp add: distinct_map inj_on_def corner_inj)

lemma select_all_indices: "select_ops xs (map int [0..<length xs]) = Some xs"
proof -
  have "\<forall>j \<in> set [0..<length xs]. (py_index xs \<circ> int) j = Some (xs ! j)"
    by (simp add: py_index_def)
  then have "those (map (py_index xs \<circ> int) [0..<length xs]) = Some (map (\<lambda>j. xs ! j) [0..<length xs])"
    by (rule those_eq_Some_map)
  then show ?thesis by (simp add: select_ops_def map_nth)
qed

lemma select_all_431: "select_ops pool_431 all_431 = Some pool_431"
  using select_all_indices [of pool_431] by (simp only: length_pool_431 all_431_def)

lemma square_mod3:
  fixes a :: int
  assumes "a mod 3 = 2"
  shows "(a * a) mod 3 = 1"
proof -
  have "(a * a) mod 3 = ((a mod 3) * (a mod 3)) mod 3" by (simp add: mod_mult_eq)
  with assms show ?thesis by simp
qed

lemma pool_431_no_identity: "identity \<notin> set pool_431"
proof
  assume "identity \<in> set pool_431"
  from in_pool_431 [OF this] obtain b where "identity = corner b" by blast
  with corner_not_identity [of b] show False by simp
qed

lemma pool_431_no_small_corner: "b < 5 \<Longrightarrow> corner b \<notin> set pool_431"
proof
  assume b: "b < 5" and "corner b \<in> set pool_431"
  from in_pool_431 [OF this(2)] obtain a where "corner b = corner a" "5 \<le> a" by blast
  with b show False by (simp add: corner_inj)
qed

lemma corner_seeds_overshoot:
  assumes ord: "valid_order ord"
    and sub: "set gens \<subseteq> set pool_431" and d: "distinct gens"
    and ne: "gens \<noteq> []" and len: "int (length gens) + 1 < max_size"
  shows "length gens + 3 \<le> length (generate_group ord gens max_size)"
proof -
  obtain current rest where gens: "gens = current # rest" using ne by (cases gens) auto
  with sub have "current \<in> set pool_431" by simp
  from in_pool_431 [OF this] obtain a where a: "current = corner a" "a mod 3 = 2" by blast
  have no_id: "identity \<notin> set gens"
    using sub pool_431_no_identity by blast
  have G: "initial_group gens = identity # gens"
    using d no_id by (rule initial_group_fresh)
  obtain Q' P' where "closure_loop ord max_size (initial_group gens, gens, [])
      = (generate_group ord gens max_size, Q', P')"
    using generate_group_run by blast
  then have run: "closure_loop ord max_size (identity # gens, current # rest, [])
      = (generate_group ord gens max_size, Q', P')"
    by (simp only: G) (simp only: gens)
  have small: "corner b \<notin> set (identity # gens)" if "b < 5" for b
    using pool_431_no_small_corner [OF that] sub corner_not_identity [of b] by auto
  have p1: "matrix_mult_mod3 current identity = corner 2"
    by (simp only: a corner_times_identity)
  have p2: "matrix_mult_mod3 current current = corner 1"
    by (simp only: a(1) corner_times_corner square_mod3 [OF a(2)])
  have "length (identity # gens) + 2 \<le> length (generate_group ord gens max_size)"
  proof (rule first_step_adds_two [OF run ord, of identity current])
    show "distinct (identity # gens)" using d no_id by simp
    show "int (length (identity # gens)) < max_size" using len by simp
    show "identity \<in> set (identity # gens)" by simp
    show "current \<in> set (identity # gens)" by (simp add: gens)
    show "matrix_mult_mod3 current identity \<notin> set (identity # gens)"
      unfolding p1 by (rule small) simp
    show "matrix_mult_mod3 current current \<notin> set (identity # gens)"
      unfolding p2 by (rule small) simp
    show "matrix_mult_mod3 current identity \<noteq> matrix_mult_mod3 current current"
      unfolding p1 p2 by (simp add: corner_inj)
  qed
  then show ?thesis by simp
qed

lemma full_pool_431:
  "length (generate_group ord pool_431 432) = 432"
proof -
  have G: "initial_group pool_431 = identity # pool_431"
    using distinct_pool_431 pool_431_no_identity by (rule initial_group_fresh)
  have "closure_loop ord 432 (identity # pool_431, pool_431, []) = (identity # pool_431, pool_431, [])"
    by (rule closure_loop_stops) (simp add: length_pool_431)
  then show ?thesis by (simp add: generate_group_def G length_pool_431)
qed

lemma reduced_pool_431:
  assumes "valid_order ord" and "i < 431"
  shows "433 \<le> length (generate_group ord (take i pool_431 @ drop (Suc i) pool_431) 432)"
proof -
  let ?gens = "take i pool_431 @ drop (Suc i) pool_431"
  have len: "length ?gens = 430" using assms(2) by (simp add: length_pool_431)
  have sub: "set ?gens \<subseteq> set pool_431"
    using set_take_subset [of i pool_431] set_drop_subset [of "Suc i" pool_431] by auto
  have d: "distinct ?gens"
    using distinct_pool_431
    by (simp add: distinct_take distinct_drop set_take_disj_set_drop_if_distinct)
  have "length ?gens + 3 \<le> length (generate_group ord ?gens 432)"
    using len by (intro corner_seeds_overshoot [OF assms(1) sub d]) auto
  with len show ?thesis by simp
qed

lemma verify_minimality_pool_431:
  assumes "valid_order ord"
  shows "verify_minimality ord pool_431 all_431 = Some True"
proof -
  have "length all_431 = 431" by (simp add: all_431_def)
  moreover have "length (generate_group ord (take i pool_431 @ drop (Suc i) pool_431) 432) \<noteq> 432"
    if "i < 431" for i
    using reduced_pool_431 [OF assms that] by simp
  ultimately show ?thesis
    using verify_minimality_eq [OF select_all_431, of ord] full_pool_431 [of ord] by simp
qed

section \<open>Result on the minimality check\<close>

text \<open>
  C6: \<open>verify_minimality\<close> is claimed to return \<open>True\<close> exactly when the closure of the
  tuple has 432 elements and every closure of the tuple without one entry has fewer than
  432. On the pool \<open>pool_431\<close> and the tuple of all its indices it returns \<open>True\<close>: the
  closure of the full tuple is the identity and the 431 seeds, and every reduced closure
  starts at 431 elements and passes the cap, ending with more than 432. The test of the
  source is \<open>len(reduced_group) == 432\<close>, which a closure above the cap escapes.
\<close>

theorem verify_minimality_accepts_larger_reductions:
  assumes "valid_order ord"
  shows "select_ops pool_431 all_431 = Some pool_431
     \<and> verify_minimality ord pool_431 all_431 = Some True
     \<and> length (generate_group ord pool_431 432) = 432
     \<and> (\<forall>i < 431. 432 < length (generate_group ord (take i pool_431 @ drop (Suc i) pool_431) 432))"
proof -
  have "432 < length (generate_group ord (take i pool_431 @ drop (Suc i) pool_431) 432)"
    if "i < 431" for i
    using reduced_pool_431 [OF assms that] by simp
  then show ?thesis
    using select_all_431 verify_minimality_pool_431 [OF assms] full_pool_431 [of ord] by blast
qed

theorem verify_minimality_accepts_larger_reductions_witness:
  "valid_order (\<lambda>G. G)
   \<and> verify_minimality (\<lambda>G. G) pool_431 all_431 = Some True
   \<and> 432 < length (generate_group (\<lambda>G. G) (take 0 pool_431 @ drop (Suc 0) pool_431) 432)"
proof -
  have v: "valid_order (\<lambda>G. G)" by (simp add: valid_order_def)
  have z: "(0::nat) < 431" by simp
  from verify_minimality_accepts_larger_reductions [OF v] v z show ?thesis by blast
qed

section \<open>Properties of the pool loader\<close>

subsection \<open>The scanner of \<open>int\<close> accepts the integer literals\<close>

lemma digit_value_digit: "is_digit c \<Longrightarrow> digit_value c = Some (int (of_char c) - 48)"
  by (simp add: digit_value_def is_digit_def Let_def)

lemma digit_value_not_digit: "\<not> is_digit c \<Longrightarrow> digit_value c = None"
  by (auto simp: digit_value_def is_digit_def Let_def)

lemma digit_value_Some: "digit_value c = Some d \<Longrightarrow> is_digit c \<and> d = int (of_char c) - 48"
  by (auto simp: digit_value_def is_digit_def Let_def split: if_splits)

lemma underscore_not_digit: "\<not> is_digit CHR ''_''"
  by (simp add: is_digit_def)




lemma parse_digits_run:
  "list_all is_digit g \<Longrightarrow>
   parse_digits acc b (g @ rest)
     = (if g = [] then parse_digits acc b rest
        else parse_digits (foldl shift_digit acc g) True rest)"
proof (induction g arbitrary: acc b)
  case Nil
  show ?case by simp
next
  case (Cons c g)
  then have c: "digit_value c = Some (int (of_char c) - 48)" and g: "list_all is_digit g"
    by (simp_all add: digit_value_digit)
  have sd: "10 * acc + (int (of_char c) - 48) = shift_digit acc c"
    by (simp add: shift_digit_def)
  show ?case
    using Cons.IH [OF g, of "shift_digit acc c" True] by (simp add: c sd)
qed

lemma parse_digits_groups:
  assumes "list_all digit_group gs"
  shows "parse_digits acc True (concat (map (\<lambda>h. CHR ''_'' # h) gs))
     = Some (foldl shift_digit acc (concat gs))"
  using assms
proof (induction gs arbitrary: acc)
  case Nil
  show ?case by simp
next
  case (Cons h hs)
  then have "digit_group h" and hs: "list_all digit_group hs" by simp_all
  then have h: "h \<noteq> []" "list_all is_digit h" by (simp_all add: digit_group_def)
  have "parse_digits acc True (CHR ''_'' # h @ concat (map (\<lambda>h. CHR ''_'' # h) hs))
      = parse_digits acc False (h @ concat (map (\<lambda>h. CHR ''_'' # h) hs))"
    by (simp add: digit_value_not_digit [OF underscore_not_digit])
  also have "\<dots> = parse_digits (foldl shift_digit acc h) True (concat (map (\<lambda>h. CHR ''_'' # h) hs))"
    using h by (simp add: parse_digits_run)
  also have "\<dots> = Some (foldl shift_digit (foldl shift_digit acc h) (concat hs))"
    by (rule Cons.IH [OF hs])
  finally show ?case by simp
qed

lemma parse_unsigned_literal:
  assumes "unsigned_literal body v"
  shows "parse_digits 0 False body = Some v"
proof -
  from assms obtain g gs where g: "g \<noteq> []" "list_all is_digit g" and gs: "list_all digit_group gs"
    and body: "body = g @ concat (map (\<lambda>h. CHR ''_'' # h) gs)"
    and v: "v = decimal_value (g @ concat gs)"
    by (auto simp: unsigned_literal_def digit_group_def)
  show ?thesis
    using g by (simp add: body v parse_digits_run parse_digits_groups [OF gs] decimal_value_def)
qed

lemma parse_digits_shape:
  assumes "parse_digits acc b s = Some v"
  shows "\<exists>g gs. list_all is_digit g \<and> (b \<or> g \<noteq> []) \<and> list_all digit_group gs
     \<and> s = g @ concat (map (\<lambda>h. CHR ''_'' # h) gs)
     \<and> v = foldl shift_digit acc (g @ concat gs)"
  using assms
proof (induction s arbitrary: acc b)
  case Nil
  then have "b" "v = acc" by (simp_all split: if_splits)
  then have "list_all is_digit [] \<and> (b \<or> [] \<noteq> ([]::string)) \<and> list_all digit_group []
     \<and> [] = [] @ concat (map (\<lambda>h. CHR ''_'' # h) []) \<and> v = foldl shift_digit acc ([] @ concat [])"
    by simp
  then show ?case by blast
next
  case (Cons c cs)
  show ?case
  proof (cases "digit_value c")
    case (Some d)
    from digit_value_Some [OF Some] have c: "is_digit c" and d: "d = int (of_char c) - 48"
      by simp_all
    from Cons.prems Some have "parse_digits (10 * acc + d) True cs = Some v" by simp
    from Cons.IH [OF this] obtain g gs where
      IH: "list_all is_digit g" "list_all digit_group gs"
        "cs = g @ concat (map (\<lambda>h. CHR ''_'' # h) gs)"
        "v = foldl shift_digit (10 * acc + d) (g @ concat gs)"
      by blast
    have sd: "10 * acc + d = shift_digit acc c"
      by (simp add: shift_digit_def d)
    have "list_all is_digit (c # g) \<and> (b \<or> c # g \<noteq> []) \<and> list_all digit_group gs
       \<and> c # cs = (c # g) @ concat (map (\<lambda>h. CHR ''_'' # h) gs)
       \<and> v = foldl shift_digit acc ((c # g) @ concat gs)"
      using IH c by (simp add: sd)
    then show ?thesis by blast
  next
    case None
    with Cons.prems have u: "c = CHR ''_''" and b: "b"
      and run: "parse_digits acc False cs = Some v"
      by (simp_all split: if_splits)
    from Cons.IH [OF run] obtain g gs where
      IH: "list_all is_digit g" "g \<noteq> []" "list_all digit_group gs"
        "cs = g @ concat (map (\<lambda>h. CHR ''_'' # h) gs)"
        "v = foldl shift_digit acc (g @ concat gs)"
      by blast
    have "list_all is_digit [] \<and> (b \<or> [] \<noteq> ([]::string)) \<and> list_all digit_group (g # gs)
       \<and> c # cs = [] @ concat (map (\<lambda>h. CHR ''_'' # h) (g # gs))
       \<and> v = foldl shift_digit acc ([] @ concat (g # gs))"
      using IH u b by (simp add: digit_group_def)
    then show ?thesis by blast
  qed
qed

lemma unsigned_literal_parse:
  assumes "parse_digits 0 False body = Some v"
  shows "unsigned_literal body v"
  using parse_digits_shape [OF assms]
  by (auto simp: unsigned_literal_def digit_group_def decimal_value_def)

lemma parse_digits_unsigned: "parse_digits 0 False body = Some v \<longleftrightarrow> unsigned_literal body v"
  using parse_unsigned_literal unsigned_literal_parse by blast


lemma strip_with_core:
  assumes "list_all blank ws1" and "list_all blank ws2"
    and "core \<noteq> []" and "\<not> blank (hd core)" and "\<not> blank (last core)"
  shows "strip_with blank (ws1 @ core @ ws2) = core"
proof -
  have front: "dropWhile blank (ws1 @ core @ ws2) = core @ ws2"
  proof -
    have "dropWhile blank (ws1 @ core @ ws2) = dropWhile blank (core @ ws2)"
      using assms(1) by (simp add: dropWhile_append list_all_iff)
    also have "\<dots> = core @ ws2"
      using assms(3,4) by (cases core) simp_all
    finally show ?thesis .
  qed
  have rear: "dropWhile blank (rev ws2 @ rev core) = rev core"
  proof -
    have "dropWhile blank (rev ws2 @ rev core) = dropWhile blank (rev core)"
      using assms(2) by (simp add: dropWhile_append list_all_iff)
    also have "\<dots> = rev core"
      using assms(3,5) by (cases "rev core") (simp_all add: hd_rev [symmetric] last_rev)
    finally show ?thesis .
  qed
  show ?thesis
    by (simp add: strip_with_def front rear)
qed

lemma strip_with_parts:
  "\<exists>ws1 ws2. list_all blank ws1 \<and> list_all blank ws2 \<and> s = ws1 @ strip_with blank s @ ws2"
proof -
  let ?t = "dropWhile blank s"
  have s: "s = takeWhile blank s @ ?t" by simp
  have "?t = rev (takeWhile blank (rev ?t) @ dropWhile blank (rev ?t))"
    by (simp only: takeWhile_dropWhile_id rev_rev_ident)
  also have "\<dots> = rev (dropWhile blank (rev ?t)) @ rev (takeWhile blank (rev ?t))"
    by (simp only: rev_append)
  finally have t: "?t = strip_with blank s @ rev (takeWhile blank (rev ?t))"
    by (simp only: strip_with_def)
  have "list_all blank (takeWhile blank s)"
    by (simp add: list_all_iff) (metis set_takeWhileD)
  moreover have "list_all blank (rev (takeWhile blank (rev ?t)))"
    by (simp add: list_all_iff) (metis set_takeWhileD)
  moreover have "s = takeWhile blank s @ strip_with blank s @ rev (takeWhile blank (rev ?t))"
    using s t by metis
  ultimately show ?thesis by blast
qed








subsection \<open>Splitting and stripping\<close>

lemma split_comma_not_Nil: "split_comma s \<noteq> []"
  by (induction s) (auto split: list.splits)

lemma join_comma_Cons: "ps \<noteq> [] \<Longrightarrow> join_comma (p # ps) = p @ CHR '','' # join_comma ps"
  by (cases ps) simp_all

lemma join_split_comma: "join_comma (split_comma s) = s"
proof (induction s)
  case Nil
  show ?case by simp
next
  case (Cons c cs)
  obtain p ps where sp: "split_comma cs = p # ps"
    using split_comma_not_Nil [of cs] by (cases "split_comma cs") auto
  show ?case
  proof (cases "c = CHR '',''")
    case True
    with Cons show ?thesis by (simp add: join_comma_Cons split_comma_not_Nil)
  next
    case False
    with Cons sp show ?thesis by (cases ps) simp_all
  qed
qed

lemma split_comma_no_comma: "p \<in> set (split_comma s) \<Longrightarrow> CHR '','' \<notin> set p"
proof (induction s arbitrary: p)
  case Nil
  then show ?case by simp
next
  case (Cons c cs)
  obtain q qs where sp: "split_comma cs = q # qs"
    using split_comma_not_Nil [of cs] by (cases "split_comma cs") auto
  show ?case
  proof (cases "c = CHR '',''")
    case True
    with Cons show ?thesis by auto
  next
    case False
    with Cons.prems sp have "p = c # q \<or> p \<in> set qs" by simp
    with Cons.IH [of q] Cons.IH [of p] sp False show ?thesis by auto
  qed
qed

lemma split_join_comma:
  assumes "ps \<noteq> []" and "\<forall>p \<in> set ps. CHR '','' \<notin> set p"
  shows "split_comma (join_comma ps) = ps"
  using assms
proof (induction ps rule: join_comma.induct)
  case 1
  then show ?case by simp
next
  case (2 p)
  then have "CHR '','' \<notin> set p" by simp
  then show ?case by (induction p) auto
next
  case (3 p q ps)
  then have IH: "split_comma (join_comma (q # ps)) = q # ps" and p: "CHR '','' \<notin> set p"
    by simp_all
  from p show ?case by (induction p) (auto simp: IH)
qed

lemma split_comma_iff:
  "split_comma s = ps
     \<longleftrightarrow> ps \<noteq> [] \<and> (\<forall>p \<in> set ps. CHR '','' \<notin> set p) \<and> s = join_comma ps"
  using split_comma_not_Nil [of s] join_split_comma [of s] split_comma_no_comma [of _ s]
    split_join_comma [of ps]
  by auto

lemma strip_with_ends:
  assumes "strip_with blank s \<noteq> []"
  shows "\<not> blank (hd (strip_with blank s)) \<and> \<not> blank (last (strip_with blank s))"
proof -
  let ?t = "dropWhile blank s"
  let ?u = "dropWhile blank (rev ?t)"
  from assms have u: "?u \<noteq> []" by (simp add: strip_with_def)
  have "?t = [] \<Longrightarrow> ?u = []" by (simp only: rev.simps dropWhile.simps)
  with u have t: "?t \<noteq> []" by blast
  from u have "\<not> blank (hd ?u)" by (rule hd_dropWhile)
  then have l: "\<not> blank (last (rev ?u))" using u by (simp add: last_rev)
  from t have ht: "\<not> blank (hd ?t)" by (rule hd_dropWhile)
  have "rev ?t = takeWhile blank (rev ?t) @ ?u" by simp
  then have "rev (rev ?t) = rev (takeWhile blank (rev ?t) @ ?u)" by (rule arg_cong)
  then have "?t = rev ?u @ rev (takeWhile blank (rev ?t))" by (simp only: rev_rev_ident rev_append)
  then have "hd ?t = hd (rev ?u @ rev (takeWhile blank (rev ?t)))" by (rule arg_cong)
  then have "hd ?t = hd (rev ?u)" using u by simp
  with ht l show ?thesis by (simp add: strip_with_def)
qed

lemma strip_with_iff:
  "strip_with blank s = core
     \<longleftrightarrow> (\<exists>ws1 ws2. list_all blank ws1 \<and> list_all blank ws2 \<and> s = ws1 @ core @ ws2)
         \<and> (core = [] \<or> \<not> blank (hd core) \<and> \<not> blank (last core))"
proof
  assume "strip_with blank s = core"
  then show "(\<exists>ws1 ws2. list_all blank ws1 \<and> list_all blank ws2 \<and> s = ws1 @ core @ ws2)
         \<and> (core = [] \<or> \<not> blank (hd core) \<and> \<not> blank (last core))"
    using strip_with_parts [of blank s] strip_with_ends [of blank s] by auto
next
  assume r: "(\<exists>ws1 ws2. list_all blank ws1 \<and> list_all blank ws2 \<and> s = ws1 @ core @ ws2)
         \<and> (core = [] \<or> \<not> blank (hd core) \<and> \<not> blank (last core))"
  then obtain ws1 ws2 where ws: "list_all blank ws1" "list_all blank ws2"
    and s: "s = ws1 @ core @ ws2" by blast
  show "strip_with blank s = core"
  proof (cases "core = []")
    case True
    have d: "dropWhile blank (ws1 @ ws2) = []"
      unfolding dropWhile_eq_Nil_conv using ws by (auto simp: list_all_iff)
    show ?thesis unfolding s True strip_with_def
      by (simp only: append_Nil d rev.simps dropWhile.simps)
  next
    case False
    with r ws show ?thesis unfolding s by (intro strip_with_core) simp_all
  qed
qed

lemma split_comma_strip_iff:
  "split_comma (strip line) = ps
     \<longleftrightarrow> ps \<noteq> [] \<and> (\<forall>p \<in> set ps. CHR '','' \<notin> set p)
         \<and> (\<exists>ws1 ws2. list_all is_space ws1 \<and> list_all is_space ws2
               \<and> line = ws1 @ join_comma ps @ ws2)
         \<and> (join_comma ps = []
            \<or> \<not> is_space (hd (join_comma ps)) \<and> \<not> is_space (last (join_comma ps)))"
proof -
  have "split_comma (strip line) = ps
      \<longleftrightarrow> ps \<noteq> [] \<and> (\<forall>p \<in> set ps. CHR '','' \<notin> set p)
          \<and> strip_with is_space line = join_comma ps"
    by (simp only: split_comma_iff strip_def)
  then show ?thesis
    by (simp only: strip_with_iff [of is_space line "join_comma ps"] conj_assoc)
qed

subsection \<open>The loader record by record\<close>









subsection \<open>Entries over F3\<close>







section \<open>Results on the pool loader\<close>




end
